theory Spec2Isabelle
  imports Main "HOL-Library.Monad_Syntax"
begin

section \<open>Python strings\<close>

text \<open>
  A Python \<open>str\<close> is a sequence of Unicode code points.  A code point is a natural
  number; ASCII literals are written with \<open>str\<close>.  An operation that raises in Python
  returns \<open>None\<close> here.
\<close>

type_synonym uchar = nat
type_synonym ustr = "uchar list"

definition str :: "string \<Rightarrow> ustr" where
  "str s = map of_char s"

abbreviation nl :: uchar where "nl \<equiv> 10"
abbreviation bsl :: uchar where "bsl \<equiv> 92"
abbreviation btk :: uchar where "btk \<equiv> 96"

text \<open>U+2022 (the bullet) and U+258E (the bar that opens a header).\<close>

abbreviation bullet :: uchar where "bullet \<equiv> 0x2022"
abbreviation hbar :: uchar where "hbar \<equiv> 0x258E"

text \<open>
  \<open>str.isspace\<close> for one character, which is also what \<open>\s\<close> matches in a \<open>str\<close>
  pattern and what \<open>strip()\<close> and \<open>split()\<close> remove.
\<close>

definition isspace :: "uchar \<Rightarrow> bool" where
  "isspace c \<longleftrightarrow>
     (0x09 \<le> c \<and> c \<le> 0x0D) \<or> (0x1C \<le> c \<and> c \<le> 0x20) \<or> c = 0x85 \<or> c = 0xA0 \<or>
     c = 0x1680 \<or> (0x2000 \<le> c \<and> c \<le> 0x200A) \<or> c = 0x2028 \<or> c = 0x2029 \<or>
     c = 0x202F \<or> c = 0x205F \<or> c = 0x3000"

text \<open>
  \<open>\d\<close> in a \<open>str\<close> pattern matches the decimal digits of Unicode (category Nd), which come
  in runs of ten; the list holds the code point of the zero of each run, as the tables of
  Python 3.11 (Unicode 14.0) have them.
\<close>

definition decimal_zeros :: "uchar list" where
  "decimal_zeros =
    [0x0030, 0x0660, 0x06F0, 0x07C0, 0x0966, 0x09E6, 0x0A66, 0x0AE6, 0x0B66, 0x0BE6,
     0x0C66, 0x0CE6, 0x0D66, 0x0DE6, 0x0E50, 0x0ED0, 0x0F20, 0x1040, 0x1090, 0x17E0,
     0x1810, 0x1946, 0x19D0, 0x1A80, 0x1A90, 0x1B50, 0x1BB0, 0x1C40, 0x1C50, 0xA620,
     0xA8D0, 0xA900, 0xA9D0, 0xA9F0, 0xAA50, 0xABF0, 0xFF10, 0x104A0, 0x10D30, 0x11066,
     0x110F0, 0x11136, 0x111D0, 0x112F0, 0x11450, 0x114D0, 0x11650, 0x116C0, 0x11730,
     0x118E0, 0x11950, 0x11C50, 0x11D50, 0x11DA0, 0x16A60, 0x16AC0, 0x16B50,
     0x1D7CE, 0x1D7D8, 0x1D7E2, 0x1D7EC, 0x1D7F6, 0x1E140, 0x1E2F0, 0x1E950,
     0x1FBF0]"

definition isdecimal :: "uchar \<Rightarrow> bool" where
  "isdecimal c \<longleftrightarrow> list_ex (\<lambda>z. z \<le> c \<and> c < z + 10) decimal_zeros"

text \<open>\<open>text[j:k]\<close> for indices that are not negative: empty when \<open>k \<le> j\<close>.\<close>

definition slice :: "ustr \<Rightarrow> nat \<Rightarrow> nat \<Rightarrow> ustr" where
  "slice text j k = take (k - j) (drop j text)"

text \<open>\<open>xs[i]\<close> raises IndexError out of range.\<close>

definition nth_chk :: "'a list \<Rightarrow> nat \<Rightarrow> 'a option" where
  "nth_chk xs i = (if i < length xs then Some (xs ! i) else None)"

text \<open>\<open>text.split(sep)\<close> for a separator of one character: never an empty list.\<close>

fun split_on :: "uchar \<Rightarrow> ustr \<Rightarrow> ustr list" where
  "split_on d [] = [[]]"
| "split_on d (c # cs) =
     (if c = d then [] # split_on d cs
      else (case split_on d cs of [] \<Rightarrow> [[c]] | l # ls \<Rightarrow> (c # l) # ls))"

fun join :: "ustr \<Rightarrow> ustr list \<Rightarrow> ustr" where
  "join sep [] = []"
| "join sep [l] = l"
| "join sep (l # ls) = l @ sep @ join sep ls"

text \<open>\<open>text.strip()\<close> and \<open>text.split()\<close> (runs of whitespace separate, no empty words).\<close>

definition strip :: "ustr \<Rightarrow> ustr" where
  "strip text = rev (dropWhile isspace (rev (dropWhile isspace text)))"

fun split_ws :: "ustr \<Rightarrow> ustr \<Rightarrow> ustr list" where
  "split_ws cur [] = (if cur = [] then [] else [cur])"
| "split_ws cur (c # cs) =
     (if isspace c then (if cur = [] then split_ws [] cs else cur # split_ws [] cs)
      else split_ws (cur @ [c]) cs)"

definition startswith :: "ustr \<Rightarrow> ustr \<Rightarrow> bool" where
  "startswith text pre \<longleftrightarrow> take (length pre) text = pre"

section \<open>Regular expressions of the \<open>re\<close> module\<close>

text \<open>
  The patterns of \<open>escape.py\<close> use literals, the classes \<open>.\<close>, \<open>\s\<close>, \<open>\d\<close>, \<open>\D\<close> and
  bracketed unions of them, concatenation, alternation, greedy and lazy repetition,
  capture groups and \<open>^\<close> under \<open>re.MULTILINE\<close>.  \<open>replace_all\<close> takes its pattern from
  the caller, so the lookahead \<open>(?=r)\<close> is here as well: a group inside it captures text
  that the match itself does not consume.
\<close>

datatype cclass = Lit uchar | Dot | Space | Digit | NonDigit | Union cclass cclass

fun cmem :: "cclass \<Rightarrow> uchar \<Rightarrow> bool" where
  "cmem (Lit d) c = (c = d)"
| "cmem Dot c = (c \<noteq> nl)"
| "cmem Space c = isspace c"
| "cmem Digit c = isdecimal c"
| "cmem NonDigit c = (\<not> isdecimal c)"
| "cmem (Union a b) c = (cmem a c \<or> cmem b c)"

text \<open>\<open>Star True r\<close> is the greedy \<open>r*\<close>, \<open>Star False r\<close> the lazy \<open>r*?\<close>; \<open>Bol\<close> is \<open>^\<close>
  under \<open>re.MULTILINE\<close>; \<open>Look r\<close> is \<open>(?=r)\<close>.\<close>

datatype regex =
    Eps
  | Sym cclass
  | Bol
  | Seq regex regex
  | Alt regex regex
  | Star bool regex
  | Grp nat regex
  | Look regex

type_synonym span = "nat \<times> nat"

text \<open>
  A state of the matcher: the position in the text, whether it is at the start of a
  line, the text from there on, and the groups captured so far (the latest first).
\<close>

type_synonym mstate = "nat \<times> bool \<times> ustr \<times> (nat \<times> span) list"

fun remaining :: "mstate \<Rightarrow> nat" where
  "remaining (p, b, cs, g) = length cs"

text \<open>
  The backtracking matcher: all the ways the pattern matches from a state, in the order
  in which backtracking tries them, so that the head of the list is the match \<open>re\<close>
  reports.  An iteration of a repetition that consumes nothing is accepted, with what it
  captured, and ends the repetition (the guard of \<open>sre\<close> against repeating an empty
  match).  A lookahead keeps the groups of the first way its pattern matches and moves
  nothing.
\<close>

fun rmatch :: "regex \<Rightarrow> mstate \<Rightarrow> mstate list" where
  "rmatch Eps st = [st]"
| "rmatch (Sym cl) (p, b, [], g) = []"
| "rmatch (Sym cl) (p, b, c # cs, g) = (if cmem cl c then [(Suc p, c = nl, cs, g)] else [])"
| "rmatch Bol (p, b, cs, g) = (if b then [(p, b, cs, g)] else [])"
| "rmatch (Seq r1 r2) st = concat (map (rmatch r2) (rmatch r1 st))"
| "rmatch (Alt r1 r2) st = rmatch r1 st @ rmatch r2 st"
| "rmatch (Grp n r) (p, b, cs, g) =
     map (\<lambda>(p', b', cs', g'). (p', b', cs', (n, (p, p')) # g')) (rmatch r (p, b, cs, g))"
| "rmatch (Star True r) st =
     concat (map (\<lambda>st'. if remaining st' < remaining st then rmatch (Star True r) st' else [st'])
                 (rmatch r st)) @ [st]"
| "rmatch (Star False r) st =
     st # concat (map (\<lambda>st'. if remaining st' < remaining st then rmatch (Star False r) st' else [st'])
                      (rmatch r st))"
| "rmatch (Look r) (p, b, cs, g) =
     (case rmatch r (p, b, cs, g) of [] \<Rightarrow> [] | (p', b', cs', g') # rest \<Rightarrow> [(p, b, cs, g')])"

text \<open>The equations of a repetition unfold without end: they are used by name only.\<close>

lemmas rmatch_star = rmatch.simps(8) rmatch.simps(9)

declare rmatch_star [simp del]

text \<open>
  One attempt at one start position.  After an empty match the next search must
  advance: an empty match at the same position is rejected and backtracking goes on.
\<close>

definition attempt :: "regex \<Rightarrow> bool \<Rightarrow> mstate \<Rightarrow> mstate option" where
  "attempt r must st =
     (case filter (\<lambda>st'. \<not> (must \<and> fst st' = fst st)) (rmatch r st) of
        [] \<Rightarrow> None
      | e # _ \<Rightarrow> Some e)"

text \<open>The leftmost match at or after the position: its start and its final state.\<close>

fun search :: "regex \<Rightarrow> bool \<Rightarrow> nat \<Rightarrow> bool \<Rightarrow> ustr \<Rightarrow> (nat \<times> mstate) option" where
  "search r must p b [] =
     (case attempt r must (p, b, [], []) of None \<Rightarrow> None | Some e \<Rightarrow> Some (p, e))"
| "search r must p b (c # cs) =
     (case attempt r must (p, b, c # cs, []) of
        None \<Rightarrow> search r False (Suc p) (c = nl) cs
      | Some e \<Rightarrow> Some (p, e))"

text \<open>Every result of the matcher is the start state moved forward over the text.\<close>

definition advanced :: "mstate \<Rightarrow> mstate \<Rightarrow> bool" where
  "advanced st st' \<longleftrightarrow>
     (\<exists>k. k \<le> remaining st \<and> fst st' = fst st + k \<and>
          fst (snd (snd st')) = drop k (fst (snd (snd st))))"

lemma advanced_refl: "advanced st st"
  unfolding advanced_def by (rule exI [of _ 0]) simp

lemma advanced_trans:
  assumes "advanced a b" and "advanced b c"
  shows "advanced a c"
proof -
  obtain pa ba ca ga where a: "a = (pa, ba, ca, ga)" by (cases a)
  obtain pb bb cb gb where b: "b = (pb, bb, cb, gb)" by (cases b)
  obtain pc bc cc gc where c: "c = (pc, bc, cc, gc)" by (cases c)
  from assms(1) a b obtain k where k: "k \<le> length ca" "pb = pa + k" "cb = drop k ca"
    by (auto simp: advanced_def)
  from assms(2) b c obtain l where l: "l \<le> length cb" "pc = pb + l" "cc = drop l cb"
    by (auto simp: advanced_def)
  have "k + l \<le> length ca" using k l by simp
  moreover have "pc = pa + (k + l)" using k l by simp
  moreover have "cc = drop (k + l) ca" using k l by (simp add: add.commute)
  ultimately show ?thesis unfolding advanced_def a c by auto
qed

lemma grp_mem:
  assumes "st' \<in> set (rmatch (Grp n r) (p, b, cs, g))"
  obtains p' b' cs' g' where "(p', b', cs', g') \<in> set (rmatch r (p, b, cs, g))"
    and "st' = (p', b', cs', (n, (p, p')) # g')"
proof -
  from assms have "st' \<in> (\<lambda>(p', b', cs', g'). (p', b', cs', (n, (p, p')) # g')) `
      set (rmatch r (p, b, cs, g))"
    by (simp only: rmatch.simps(7) set_map)
  then obtain m where m: "m \<in> set (rmatch r (p, b, cs, g))"
    and s: "st' = (\<lambda>(p', b', cs', g'). (p', b', cs', (n, (p, p')) # g')) m"
    by (rule imageE)
  obtain p' b' cs' g' where m': "m = (p', b', cs', g')" by (cases m)
  show thesis using that [of p' b' cs' g'] m s unfolding m' by simp
qed

lemma concat_map_mem:
  "x \<in> set (concat (map f xs)) \<longleftrightarrow> (\<exists>m\<in>set xs. x \<in> set (f m))"
  by (induction xs) simp_all

lemma rmatch_star_set:
  "set (rmatch (Star gr r) st) =
     insert st (\<Union>m\<in>set (rmatch r st).
       if remaining m < remaining st then set (rmatch (Star gr r) m) else {m})"
proof (cases gr)
  case True
  then have gr: "gr = True" by simp
  show ?thesis unfolding gr by (simp add: rmatch.simps(8) [of r st] if_distrib cong: if_cong)
next
  case False
  then have gr: "gr = False" by simp
  show ?thesis unfolding gr by (simp add: rmatch.simps(9) [of r st] if_distrib cong: if_cong)
qed

lemma star_mem:
  assumes "st' \<in> set (rmatch (Star gr r) st)"
  obtains "st' = st"
  | m where "m \<in> set (rmatch r st)" "remaining m < remaining st"
      "st' \<in> set (rmatch (Star gr r) m)"
  | "st' \<in> set (rmatch r st)" "\<not> remaining st' < remaining st"
proof -
  from assms have "st' = st \<or> (\<exists>m\<in>set (rmatch r st).
      st' \<in> (if remaining m < remaining st then set (rmatch (Star gr r) m) else {m}))"
    by (subst (asm) rmatch_star_set) auto
  then consider "st' = st"
    | m where "m \<in> set (rmatch r st)"
        "st' \<in> (if remaining m < remaining st then set (rmatch (Star gr r) m) else {m})"
    by blast
  then show thesis
  proof cases
    case 1
    then show ?thesis by (rule that(1))
  next
    case 2
    show ?thesis
    proof (cases "remaining m < remaining st")
      case True
      with 2 show ?thesis by (intro that(2) [of m]) simp_all
    next
      case False
      with 2 have "st' = m" by simp
      with 2(1) False show ?thesis by (intro that(3)) simp_all
    qed
  qed
qed


lemma rmatch_advanced: "st' \<in> set (rmatch r st) \<Longrightarrow> advanced st st'"
proof (induction r st arbitrary: st' rule: rmatch.induct)
  case (1 st)
  then show ?case by (simp add: advanced_refl)
next
  case (2 cl p b g)
  then show ?case by simp
next
  case (3 cl p b c cs g)
  then have s: "st' = (Suc p, c = nl, cs, g)" by (simp split: if_splits)
  show ?case unfolding s advanced_def by (rule exI [of _ "Suc 0"]) simp
next
  case (4 p b cs g)
  then have "st' = (p, b, cs, g)" by (simp split: if_splits)
  then show ?case by (simp add: advanced_refl)
next
  case (5 r1 r2 st)
  from 5(3) obtain m where m: "m \<in> set (rmatch r1 st)" and s: "st' \<in> set (rmatch r2 m)"
    by (auto simp: concat_map_mem)
  from 5(1) [OF m] 5(2) [OF m s] show ?case by (rule advanced_trans)
next
  case (6 r1 r2 st)
  from 6(3) have "st' \<in> set (rmatch r1 st) \<or> st' \<in> set (rmatch r2 st)" by simp
  with 6(1) 6(2) show ?case by blast
next
  case (7 n r p b cs g)
  from 7(2) obtain p' b' cs' g' where
    m: "(p', b', cs', g') \<in> set (rmatch r (p, b, cs, g))" and
    s: "st' = (p', b', cs', (n, (p, p')) # g')"
    by (rule grp_mem)
  from 7(1) [OF m] show ?case unfolding s advanced_def by simp
next
  case (8 r st)
  from 8(3) show ?case
  proof (cases rule: star_mem)
    case 1
    then show ?thesis by (simp add: advanced_refl)
  next
    case (2 m)
    from 8(1) [OF 2(1)] 8(2) [OF 2] show ?thesis by (rule advanced_trans)
  next
    case 3
    from 8(1) [OF 3(1)] show ?thesis .
  qed
next
  case (9 r st)
  from 9(3) show ?case
  proof (cases rule: star_mem)
    case 1
    then show ?thesis by (simp add: advanced_refl)
  next
    case (2 m)
    from 9(1) [OF 2(1)] 9(2) [OF 2] show ?thesis by (rule advanced_trans)
  next
    case 3
    from 9(1) [OF 3(1)] show ?thesis .
  qed
next
  case (10 r p b cs g)
  from 10(2) obtain g' where "st' = (p, b, cs, g')"
    by (auto split: list.splits)
  then show ?case unfolding advanced_def by (intro exI [of _ 0]) simp
qed

lemma filter_head: "filter P xs = y # ys \<Longrightarrow> y \<in> set xs \<and> P y"
  by (auto dest: filter_eq_ConsD)

lemma attempt_Some:
  "attempt r must st = Some e \<Longrightarrow> e \<in> set (rmatch r st) \<and> \<not> (must \<and> fst e = fst st)"
  unfolding attempt_def by (auto split: list.splits dest: filter_head)

lemma attempt_advanced: "attempt r must st = Some e \<Longrightarrow> advanced st e"
  by (auto dest: attempt_Some intro: rmatch_advanced)

lemma attempt_bounds:
  assumes "attempt r must (p, b, cs, []) = Some (e, b', cs', g)"
  shows "p \<le> e" and "e + length cs' = p + length cs" and "cs' = drop (e - p) cs"
    and "must \<Longrightarrow> p < e"
proof -
  from attempt_advanced [OF assms] obtain k where
    k: "k \<le> length cs" "e = p + k" "cs' = drop k cs"
    unfolding advanced_def by auto
  show "p \<le> e" using k by simp
  show "e + length cs' = p + length cs" using k by simp
  show "cs' = drop (e - p) cs" using k by simp
  show "p < e" if "must"
  proof -
    from attempt_Some [OF assms] that have "e \<noteq> p" by simp
    with k show ?thesis by simp
  qed
qed

text \<open>A found match ends no earlier than it starts, inside the text searched.\<close>

lemma search_bounds:
  "search r must p b cs = Some (s, (e, b', cs', g)) \<Longrightarrow>
     p \<le> s \<and> s \<le> e \<and> e + length cs' = p + length cs \<and> cs' = drop (e - p) cs \<and>
     (must \<longrightarrow> p < e)"
proof (induction r must p b cs rule: search.induct)
  case (1 r must p b)
  from 1 have a: "attempt r must (p, b, [], []) = Some (e, b', cs', g)" and s: "s = p"
    by (auto split: option.splits)
  note ab = attempt_bounds [OF a]
  show ?case using s ab by auto
next
  case (2 r must p b c cs)
  show ?case
  proof (cases "attempt r must (p, b, c # cs, [])")
    case None
    with 2(2) have "search r False (Suc p) (c = nl) cs = Some (s, (e, b', cs', g))"
      by simp
    from 2(1) [OF None this] have
      h: "Suc p \<le> s" "s \<le> e" "e + length cs' = Suc p + length cs"
        "cs' = drop (e - Suc p) cs"
      by simp_all
    have "e - p = Suc (e - Suc p)" using h by simp
    then have "drop (e - p) (c # cs) = cs'" using h by simp
    then show ?thesis using h by simp
  next
    case (Some x)
    with 2(2) have a: "attempt r must (p, b, c # cs, []) = Some (e, b', cs', g)"
      and s: "s = p"
      by auto
    note ab = attempt_bounds [OF a]
    show ?thesis using s ab by auto
  qed
qed

text \<open>
  \<open>re.finditer\<close>: the matches from left to right, none overlapping another; each is its
  span and its groups.  The next search starts where the match ended.
\<close>

type_synonym rematch = "span \<times> (nat \<times> span) list"

function finditer :: "regex \<Rightarrow> bool \<Rightarrow> nat \<Rightarrow> bool \<Rightarrow> ustr \<Rightarrow> rematch list" where
  "finditer r must p b cs =
     (case search r must p b cs of
        None \<Rightarrow> []
      | Some (s, (e, b', cs', g)) \<Rightarrow> ((s, e), g) # finditer r (e = s) e b' cs')"
  by pat_completeness auto
termination
proof (relation "measure (\<lambda>(r, must, p, b, cs). 2 * length cs + (if must then 0 else 1))")
  show "wf (measure (\<lambda>(r, must, p, b, cs). 2 * length cs + (if must then 0 else 1)))"
    by simp
next
  fix r :: regex and must :: bool and p :: nat and b :: bool and cs :: ustr
    and x2 s y e z b' w cs' g
  assume "search r must p b cs = Some x2" "(s, y) = x2" "(e, z) = y" "(b', w) = z"
    "(cs', g) = w"
  then have "search r must p b cs = Some (s, (e, b', cs', g))" by simp
  from search_bounds [OF this] have
    h: "p \<le> s" "s \<le> e" "e + length cs' = p + length cs" "must \<longrightarrow> p < e"
    by simp_all
  show "((r, e = s, e, b', cs'), (r, must, p, b, cs))
      \<in> measure (\<lambda>(r, must, p, b, cs). 2 * length cs + (if must then 0 else 1))"
  proof (cases must)
    case True
    with h have "length cs' < length cs" by simp
    then show ?thesis by simp
  next
    case False
    show ?thesis
    proof (cases "e = s")
      case True
      with h have "length cs' \<le> length cs" by simp
      with True False show ?thesis by simp
    next
      case False
      with h have "length cs' < length cs" by simp
      then show ?thesis by simp
    qed
  qed
qed

declare finditer.simps [simp del]

section \<open>\<open>re.sub\<close>, \<open>find_all_index\<close> and \<open>replace_all\<close>\<close>

text \<open>The highest group number of a pattern.\<close>

fun ngroups :: "regex \<Rightarrow> nat" where
  "ngroups (Seq r1 r2) = max (ngroups r1) (ngroups r2)"
| "ngroups (Alt r1 r2) = max (ngroups r1) (ngroups r2)"
| "ngroups (Star gr r) = ngroups r"
| "ngroups (Grp n r) = max n (ngroups r)"
| "ngroups (Look r) = ngroups r"
| "ngroups r = 0"

text \<open>
  A replacement template after \<open>re\<close> has parsed it: literal text and group references.
  A backslash before a character that is neither a digit, a letter nor a backslash stays
  in the text with that character, so the template \<open>'\_'\<close> is the two characters.
\<close>

datatype titem = TLit ustr | TGrp nat

text \<open>A reference to a group the pattern does not have is \<open>re.error\<close>, raised before
  any matching.\<close>

fun titem_ok :: "regex \<Rightarrow> titem \<Rightarrow> bool" where
  "titem_ok r (TLit s) = True"
| "titem_ok r (TGrp n) = (1 \<le> n \<and> n \<le> ngroups r)"

text \<open>A group that took no part in the match expands to the empty string.\<close>

fun expand :: "ustr \<Rightarrow> (nat \<times> span) list \<Rightarrow> titem list \<Rightarrow> ustr" where
  "expand text g [] = []"
| "expand text g (TLit s # ts) = s @ expand text g ts"
| "expand text g (TGrp n # ts) =
     (case map_of g n of None \<Rightarrow> [] | Some (a, b) \<Rightarrow> slice text a b) @ expand text g ts"

text \<open>The text between the matches is copied, each match gives its expansion.\<close>

fun sub_join :: "ustr \<Rightarrow> titem list \<Rightarrow> nat \<Rightarrow> rematch list \<Rightarrow> ustr" where
  "sub_join text tpl i [] = drop i text"
| "sub_join text tpl i (((s, e), g) # ms) =
     slice text i s @ expand text g tpl @ sub_join text tpl e ms"

definition re_sub :: "regex \<Rightarrow> titem list \<Rightarrow> ustr \<Rightarrow> ustr option" where
  "re_sub pattern repl text =
     (if list_all (titem_ok pattern) repl
      then Some (sub_join text repl 0 (finditer pattern False 0 True text))
      else None)"

text \<open>\<open>match.group(n)\<close> for \<open>n \<ge> 1\<close>: IndexError when the pattern has no such group,
  \<open>None\<close> (here \<open>Some None\<close>) when the group took no part in the match.\<close>

definition match_group :: "regex \<Rightarrow> rematch \<Rightarrow> nat \<Rightarrow> span option option" where
  "match_group pattern m n = (if n \<le> ngroups pattern then Some (map_of (snd m) n) else None)"

fun index_loop :: "regex \<Rightarrow> rematch list \<Rightarrow> nat list \<Rightarrow> nat list option" where
  "index_loop pattern [] index_list = Some index_list"
| "index_loop pattern (m # ms) index_list =
     (case match_group pattern m 1 of
        None \<Rightarrow> None
      | Some None \<Rightarrow> index_loop pattern ms index_list
      | Some (Some (start, end)) \<Rightarrow> index_loop pattern ms (index_list @ [start, end]))"

definition find_all_index :: "ustr \<Rightarrow> regex \<Rightarrow> nat list option" where
  "find_all_index text pattern =
     map_option (\<lambda>index_list. index_list @ [length text])
       (index_loop pattern (finditer pattern False 0 True text) [0])"

text \<open>\<open>range(a, b, 2)\<close>.\<close>

definition range2 :: "nat \<Rightarrow> nat \<Rightarrow> nat list" where
  "range2 a b = map (\<lambda>k. a + 2 * k) [0..<(b - a + 1) div 2]"

definition replace_all :: "ustr \<Rightarrow> regex \<Rightarrow> (ustr \<Rightarrow> ustr) \<Rightarrow> ustr option" where
  "replace_all text pattern function = do {
     poslist \<leftarrow> find_all_index text pattern;
     matched_parts \<leftarrow> those (map (\<lambda>i. do {
         start \<leftarrow> nth_chk poslist i;
         end \<leftarrow> nth_chk poslist (i + 1);
         Some (function (slice text start end)) })
       (range2 1 (length poslist - 1)));
     preserved \<leftarrow> those (map (\<lambda>i.
         if i + 1 < length poslist then do {
           j \<leftarrow> nth_chk poslist i;
           k \<leftarrow> nth_chk poslist (i + 1);
           Some [slice text j k] }
         else Some [])
       (range2 0 (length poslist)));
     Some (concat (map (\<lambda>(orig, transformed). orig @ transformed)
       (zip (if length (concat preserved) < length matched_parts
             then concat preserved @ [[]] else concat preserved)
            (if length matched_parts < length (concat preserved)
             then matched_parts @ [[]] else matched_parts))))
   }"

section \<open>The functions of \<open>escape.py\<close>\<close>

abbreviation ch :: "char \<Rightarrow> uchar" where "ch c \<equiv> of_char c"

definition lit :: "uchar \<Rightarrow> regex" where
  "lit c = Sym (Lit c)"

fun lits :: "ustr \<Rightarrow> regex" where
  "lits [] = Eps"
| "lits [c] = Sym (Lit c)"
| "lits (c # cs) = Seq (Sym (Lit c)) (lits cs)"

text \<open>\<open>r+\<close> and \<open>r+?\<close>, \<open>r?\<close>, \<open>r{1,2}\<close>, and \<open>[\D\d\s]\<close>.\<close>

definition rplus :: "bool \<Rightarrow> regex \<Rightarrow> regex" where
  "rplus gr r = Seq r (Star gr r)"

definition opt :: "regex \<Rightarrow> regex" where
  "opt r = Alt r Eps"

definition rep12 :: "regex \<Rightarrow> regex" where
  "rep12 r = Seq r (opt r)"

definition anychar :: cclass where
  "anychar = Union NonDigit (Union Digit Space)"

definition escapeshape :: "ustr \<Rightarrow> ustr" where
  "escapeshape text =
     (if strip text = [] then []
      else (case split_ws [] text of
              [] \<Rightarrow> text
            | w # ws \<Rightarrow>
                if startswith w (str ''#'')
                then [hbar] @ str ''*'' @ join (str '' '') ws @ str ''*'' @ [nl, nl]
                else text))"

definition escape_special_char :: "ustr \<Rightarrow> ustr" where
  "escape_special_char text = [bsl] @ text"

definition escape_minus :: "ustr \<Rightarrow> ustr" where
  "escape_minus text = [bsl] @ text"

definition escape_temp_minus :: "ustr \<Rightarrow> ustr" where
  "escape_temp_minus text = str ''@+>@''"

definition escape_backquote :: "ustr \<Rightarrow> ustr" where
  "escape_backquote text = [bsl, btk, bsl, btk]"

definition escape_backquote_in_code :: "ustr \<Rightarrow> ustr" where
  "escape_backquote_in_code text = str ''@->@''"

text \<open>The patterns, each with the regular expression of the source.\<close>

definition pat_fence :: regex where \<comment> \<open>\<open>```[\D\d\s]+?```\<close>\<close>
  "pat_fence = Seq (lits (str ''```'')) (Seq (rplus False (Sym anychar)) (lits (str ''```'')))"

definition pat_inline :: regex where \<comment> \<open>\<open>`[\D\d\s]*?`\<close>\<close>
  "pat_inline = Seq (lit btk) (Seq (Star False (Sym anychar)) (lit btk))"

definition pat_dashitem :: regex where \<comment> \<open>\<open>\n[\s]*-\s\<close>\<close>
  "pat_dashitem = Seq (lit nl) (Seq (Star True (Sym Space)) (Seq (lit (ch CHR ''-'')) (Sym Space)))"

definition pat_escaped_tick :: regex where \<comment> \<open>\<open>\\`\<close>\<close>
  "pat_escaped_tick = lits [bsl, btk]"

definition pat_tick :: regex where \<comment> \<open>\<open>\\`|(`)\<close>\<close>
  "pat_tick = Alt (lits [bsl, btk]) (Grp 1 (lit btk))"

definition pat_bold :: regex where \<comment> \<open>\<open>\*{2}(.*?)\*{2}\<close>\<close>
  "pat_bold = Seq (lits (str ''**'')) (Seq (Grp 1 (Star False (Sym Dot))) (lits (str ''**'')))"

definition pat_bullet :: regex where \<comment> \<open>\<open>\n{1,2}\*\s\<close>\<close>
  "pat_bullet = Seq (rep12 (lit nl)) (Seq (lit (ch CHR ''*'')) (Sym Space))"

definition pat_at3 :: regex where (* \@{3}(.*?)\@{3} *)
  "pat_at3 = Seq (lits (str ''@@@'')) (Seq (Grp 1 (Star False (Sym Dot))) (lits (str ''@@@'')))"

definition pat_link :: regex where \<comment> \<open>\<open>\!?\[(.*?)\]\((.*?)\)\<close>\<close>
  "pat_link =
     Seq (opt (lit (ch CHR ''!''))) (Seq (lit (ch CHR ''['')) (Seq (Grp 1 (Star False (Sym Dot)))
       (Seq (lits (str '']('')) (Seq (Grp 2 (Star False (Sym Dot))) (lit (ch CHR '')''))))))"

definition pat_link_saved :: regex where (* \@{3}(.*?)\@{3}\^{3}(.*?)\^{3} *)
  "pat_link_saved =
     Seq (lits (str ''@@@'')) (Seq (Grp 1 (Star False (Sym Dot))) (Seq (lits (str ''@@@^^^''))
       (Seq (Grp 2 (Star False (Sym Dot))) (lits (str ''^^^'')))))"

definition pat_header :: regex where \<comment> \<open>\<open>(^#+\s.+?\n+)|```[\D\d\s]+?```\<close>\<close>
  "pat_header =
     Alt (Grp 1 (Seq Bol (Seq (rplus True (lit (ch CHR ''#''))) (Seq (Sym Space)
            (Seq (rplus False (Sym Dot)) (rplus True (lit nl)))))))
         pat_fence"

definition pat_plus :: regex where
  \<comment> \<open>\<open>(\+)|\n[\s]*-\s|```[\D\d\s]+?```|`[\D\d\s]*?`\<close>\<close>
  "pat_plus = Alt (Grp 1 (lit (ch CHR ''+''))) (Alt pat_dashitem (Alt pat_fence pat_inline))"

definition pat_numbered :: regex where \<comment> \<open>\<open>\n{1,2}(\s*\d{1,2}\.\s)\<close>\<close>
  "pat_numbered =
     Seq (rep12 (lit nl)) (Grp 1 (Seq (Star True (Sym Space)) (Seq (rep12 (Sym Digit))
       (Seq (lit (ch CHR ''.'')) (Sym Space)))))"

definition pat_temp_minus :: regex where \<comment> \<open>\<open>```[\D\d\s]+?```|(-)\<close>\<close>
  "pat_temp_minus = Alt pat_fence (Grp 1 (lit (ch CHR ''-'')))"

definition pat_dashlist :: regex where \<comment> \<open>\<open>\n{1,2}(\s*)-\s\<close>\<close>
  "pat_dashlist =
     Seq (rep12 (lit nl)) (Seq (Grp 1 (Star True (Sym Space))) (Seq (lit (ch CHR ''-'')) (Sym Space)))"

definition pat_minus :: regex where
  \<comment> \<open>\<open>(-)|\n[\s]*-\s|```[\D\d\s]+?```|`[\D\d\s]*?`\<close>\<close>
  "pat_minus = Alt (Grp 1 (lit (ch CHR ''-''))) (Alt pat_dashitem (Alt pat_fence pat_inline))"

definition pat_code :: regex where \<comment> \<open>\<open>```([\D\d\s]+?)```\<close>\<close>
  "pat_code = Seq (lits (str ''```'')) (Seq (Grp 1 (rplus False (Sym anychar))) (lits (str ''```'')))"

definition pat_code_zone :: regex where \<comment> \<open>\<open>\@\@\@[\s\d\D]+?\@\@\@|(`)\<close>\<close>
  "pat_code_zone =
     Alt (Seq (lits (str ''@@@'')) (Seq (rplus False (Sym (Union Space (Union Digit NonDigit))))
            (lits (str ''@@@''))))
         (Grp 1 (lit btk))"

definition pat_tick2 :: regex where \<comment> \<open>\<open>(``)\<close>\<close>
  "pat_tick2 = Grp 1 (lits [btk, btk])"

definition pat_code_saved :: regex where (* \@{3}([\D\d\s]+?)\@{3} *)
  "pat_code_saved =
     Seq (lits (str ''@@@'')) (Seq (Grp 1 (rplus False (Sym anychar))) (lits (str ''@@@'')))"

text \<open>
  \<open>fix_uneven_backticks\<close>.  The loop writes \<open>lines[index]\<close> for the line it has just read
  and no other, so it is a map over the lines with the flag \<open>in_code_block\<close> as state.
\<close>

fun fix_lines :: "bool \<Rightarrow> ustr list \<Rightarrow> ustr list option" where
  "fix_lines in_code_block [] = Some []"
| "fix_lines in_code_block (line # lines) =
     (if startswith (strip line) (str ''```'')
      then map_option (Cons line) (fix_lines (\<not> in_code_block) lines)
      else if \<not> in_code_block then do {
        clean_line \<leftarrow> re_sub pat_escaped_tick [] line;
        line' \<leftarrow> (if count_list clean_line btk mod 2 \<noteq> 0
                  then replace_all line pat_tick (\<lambda>x. [bsl] @ x)
                  else Some line);
        map_option (Cons line') (fix_lines in_code_block lines) }
      else map_option (Cons line) (fix_lines in_code_block lines))"

definition fix_uneven_backticks :: "ustr \<Rightarrow> ustr option" where
  "fix_uneven_backticks text = map_option (join [nl]) (fix_lines False (split_on nl text))"

text \<open>A pattern of literal characters replaced by literal text.\<close>

definition sub_lit :: "ustr \<Rightarrow> ustr \<Rightarrow> ustr \<Rightarrow> ustr option" where
  "sub_lit pattern repl text = re_sub (lits pattern) [TLit repl] text"

definition escape :: "ustr \<Rightarrow> bool \<Rightarrow> ustr option" where
  "escape text0 flag = do {
     text \<leftarrow> sub_lit [bsl, ch CHR ''[''] (str ''@->@'') text0;
     text \<leftarrow> sub_lit [bsl, ch CHR '']''] (str ''@<-@'') text;
     text \<leftarrow> sub_lit [bsl, ch CHR ''(''] (str ''@-->@'') text;
     text \<leftarrow> sub_lit [bsl, ch CHR '')''] (str ''@<--@'') text;
     text \<leftarrow> (if flag then sub_lit [bsl, bsl] (str ''@@@'') text else Some text);
     text \<leftarrow> sub_lit [bsl, btk] (str ''@<@'') text;
     text \<leftarrow> sub_lit [bsl] [bsl, bsl] text;
     text \<leftarrow> (if flag then sub_lit (str ''@@@'') [bsl, bsl] text else Some text);
     text \<leftarrow> sub_lit (str ''_'') (bsl # str ''_'') text;
     text \<leftarrow> re_sub pat_bold [TLit (str ''@@@''), TGrp 1, TLit (str ''@@@'')] text;
     text \<leftarrow> re_sub pat_bullet [TLit ([nl, nl, bullet] @ str '' '')] text;
     text \<leftarrow> sub_lit (str ''*'') (bsl # str ''*'') text;
     text \<leftarrow> re_sub pat_at3 [TLit (str ''*''), TGrp 1, TLit (str ''*'')] text;
     text \<leftarrow> re_sub pat_link
       [TLit (str ''@@@''), TGrp 1, TLit (str ''@@@^^^''), TGrp 2, TLit (str ''^^^'')] text;
     text \<leftarrow> sub_lit (str ''['') (bsl # str ''['') text;
     text \<leftarrow> sub_lit (str '']'') (bsl # str '']'') text;
     text \<leftarrow> sub_lit (str ''('') (bsl # str ''('') text;
     text \<leftarrow> sub_lit (str '')'') (bsl # str '')'') text;
     text \<leftarrow> sub_lit (str ''@->@'') (bsl # str ''['') text;
     text \<leftarrow> sub_lit (str ''@<-@'') (bsl # str '']'') text;
     text \<leftarrow> sub_lit (str ''@-->@'') (bsl # str ''('') text;
     text \<leftarrow> sub_lit (str ''@<--@'') (bsl # str '')'') text;
     text \<leftarrow> re_sub pat_link_saved
       [TLit (str ''[''), TGrp 1, TLit (str '']('')  , TGrp 2, TLit (str '')'')] text;
     text \<leftarrow> sub_lit (str ''~'') (bsl # str ''~'') text;
     text \<leftarrow> sub_lit (str ''>'') (bsl # str ''>'') text;
     text \<leftarrow> replace_all text pat_header escapeshape;
     text \<leftarrow> sub_lit (str ''#'') (bsl # str ''#'') text;
     text \<leftarrow> replace_all text pat_plus escape_special_char;
     text \<leftarrow> re_sub pat_numbered [TLit [nl, nl], TGrp 1] text;
     text \<leftarrow> replace_all text pat_temp_minus escape_temp_minus;
     text \<leftarrow> sub_lit (str ''-'') (str ''@<+@'') text;
     text \<leftarrow> sub_lit (str ''@+>@'') (str ''-'') text;
     text \<leftarrow> re_sub pat_dashlist [TLit [nl, nl], TGrp 1, TLit (bullet # str '' '')] text;
     text \<leftarrow> sub_lit (str ''@<+@'') (bsl # str ''-'') text;
     text \<leftarrow> replace_all text pat_minus escape_minus;
     text \<leftarrow> re_sub pat_code [TLit (str ''@@@''), TGrp 1, TLit (str ''@@@'')] text;
     text \<leftarrow> replace_all text pat_code_zone escape_backquote_in_code;
     text \<leftarrow> sub_lit [btk] [bsl, btk] text;
     text \<leftarrow> sub_lit (str ''@<@'') [bsl, btk] text;
     text \<leftarrow> sub_lit (str ''@->@'') [btk] text;
     text \<leftarrow> replace_all text pat_tick2 escape_backquote;
     text \<leftarrow> re_sub pat_code_saved [TLit (str ''```''), TGrp 1, TLit (str ''```'')] text;
     text \<leftarrow> sub_lit (str ''='') (bsl # str ''='') text;
     text \<leftarrow> sub_lit (str ''|'') (bsl # str ''|'') text;
     text \<leftarrow> sub_lit (str ''{'') (bsl # str ''{'') text;
     text \<leftarrow> sub_lit (str ''}'') (bsl # str ''}'') text;
     text \<leftarrow> sub_lit (str ''.'') (bsl # str ''.'') text;
     text \<leftarrow> sub_lit (str ''!'') (bsl # str ''!'') text;
     fix_uneven_backticks text
   }"

section \<open>Evaluation\<close>

text \<open>
  Concrete runs are evaluated by rewriting with the definitions.  The continuation of a
  bind is left alone until the value bound is known.
\<close>

lemma bind_weak_cong: "m = m' \<Longrightarrow> Option.bind m f = Option.bind m' f"
  by simp

lemmas pat_defs = pat_fence_def pat_inline_def pat_dashitem_def pat_escaped_tick_def pat_tick_def
  pat_bold_def pat_bullet_def pat_at3_def pat_link_def pat_link_saved_def pat_header_def
  pat_plus_def pat_numbered_def pat_temp_minus_def pat_dashlist_def pat_minus_def pat_code_def
  pat_code_zone_def pat_tick2_def pat_code_saved_def lit_def rplus_def opt_def rep12_def
  anychar_def

lemmas eval_defs = str_def sub_lit_def re_sub_def finditer.simps rmatch_star attempt_def
  slice_def find_all_index_def replace_all_def match_group_def nth_chk_def range2_def
  isspace_def isdecimal_def decimal_zeros_def strip_def startswith_def escapeshape_def
  escape_special_char_def escape_minus_def escape_temp_minus_def escape_backquote_def
  escape_backquote_in_code_def fix_uneven_backticks_def

section \<open>Scenarios\<close>

text \<open>
  C10: for the empty input and either value of the flag, \<open>escape\<close> returns the empty
  string: no pass puts a character into the empty text.
\<close>

theorem escape_empty: "escape [] flag = Some []"
proof (cases flag)
  case True
  then have f: "flag = True" by simp
  show ?thesis unfolding f by (simp add: escape_def eval_defs pat_defs cong: bind_weak_cong)
next
  case False
  then have f: "flag = False" by simp
  show ?thesis unfolding f by (simp add: escape_def eval_defs pat_defs cong: bind_weak_cong)
qed

text \<open>
  C7 (scenario A): \<open>escape("Intro\n- item1\n- item2")\<close> with the default flag is
  \<open>"Intro\n\n\<bullet> item1\n\n\<bullet> item2"\<close>, the bullet being U+2022: each newline, dash and
  space becomes two newlines, the bullet and a space, and nothing else changes.
\<close>

theorem escape_scenario_A:
  "escape (str ''Intro\<newline>- item1\<newline>- item2'') False =
     Some (str ''Intro'' @ [nl, nl, bullet] @ str '' item1'' @ [nl, nl, bullet] @ str '' item2'')"
  by (simp add: escape_def eval_defs pat_defs cong: bind_weak_cong)

text \<open>
  C6 (scenario B), as the code has it: \<open>escape("[OpenAI](https://openai.com).")\<close> keeps
  the label, the brackets, the parentheses and the URL, and escapes every period, the one
  inside \<open>openai.com\<close> as well as the last one.
\<close>

theorem escape_scenario_B:
  "escape (str ''[OpenAI](https://openai.com).'') False =
     Some (str ''[OpenAI](https://openai'' @ [bsl] @ str ''.com)'' @ [bsl] @ str ''.'')"
  by (simp add: escape_def eval_defs pat_defs cong: bind_weak_cong)

text \<open>The output the specification gives for scenario B is not the one \<open>escape\<close> returns.\<close>

theorem escape_scenario_B_counterexample:
  "escape (str ''[OpenAI](https://openai.com).'') False \<noteq>
     Some (str ''[OpenAI](https://openai.com)'' @ [bsl] @ str ''.'')"
  by (simp add: escape_def eval_defs pat_defs cong: bind_weak_cong)

section \<open>The Selective Span Transform\<close>

text \<open>Index lists.\<close>

fun flat :: "span list \<Rightarrow> nat list" where
  "flat [] = []"
| "flat ((s, e) # rs) = s # e # flat rs"

lemma length_flat: "length (flat rs) = 2 * length rs"
  by (induction rs) auto

lemma range2_Suc2: "a \<le> b \<Longrightarrow> range2 a (b + 2) = a # map (\<lambda>i. i + 2) (range2 a b)"
proof -
  assume ab: "a \<le> b"
  have "(b + 2 - a + 1) div 2 = Suc ((b - a + 1) div 2)" using ab by simp
  then have "range2 a (b + 2) = map (\<lambda>k. a + 2 * k) [0..<Suc ((b - a + 1) div 2)]"
    by (simp add: range2_def)
  also have "\<dots> = a # map (\<lambda>k. a + 2 * k) (map Suc [0..<(b - a + 1) div 2])"
    by (simp only: upt_conv_Cons [of 0] map_Suc_upt) simp
  also have "\<dots> = a # map (\<lambda>i. i + 2) (range2 a b)"
    by (simp add: range2_def)
  finally show ?thesis .
qed

lemma range2_empty: "b \<le> a \<Longrightarrow> range2 a b = []"
  by (simp add: range2_def)

text \<open>The specification's reading of the Selective Span Transform.\<close>

fun transform_regions :: "rematch list \<Rightarrow> span list" where
  "transform_regions [] = []"
| "transform_regions (m # ms) =
     (case map_of (snd m) 1 of
        None \<Rightarrow> transform_regions ms
      | Some sp \<Rightarrow> sp # transform_regions ms)"

fun concat_regions :: "ustr \<Rightarrow> (ustr \<Rightarrow> ustr) \<Rightarrow> nat \<Rightarrow> span list \<Rightarrow> ustr" where
  "concat_regions text f i [] = slice text i (length text)"
| "concat_regions text f i ((s, e) # rs) =
     slice text i s @ f (slice text s e) @ concat_regions text f e rs"

lemma index_loop_flat:
  "1 \<le> ngroups pattern \<Longrightarrow>
     index_loop pattern ms acc = Some (acc @ flat (transform_regions ms))"
proof (induction ms arbitrary: acc)
  case Nil
  then show ?case by simp
next
  case (Cons m ms)
  show ?case
  proof (cases "map_of (snd m) 1")
    case None
    then show ?thesis using Cons by (simp add: match_group_def)
  next
    case (Some sp)
    obtain s e where sp: "sp = (s, e)" by (cases sp)
    show ?thesis using Cons Some sp by (simp add: match_group_def)
  qed
qed

lemma find_all_index_flat:
  "1 \<le> ngroups pattern \<Longrightarrow>
     find_all_index text pattern =
       Some (0 # flat (transform_regions (finditer pattern False 0 True text)) @ [length text])"
  by (simp add: find_all_index_def index_loop_flat)

text \<open>The two loops of \<open>replace_all\<close> over an index list \<open>i0, s1, e1, \<dots>, sk, ek, n\<close>.\<close>

definition matched_loop :: "ustr \<Rightarrow> (ustr \<Rightarrow> ustr) \<Rightarrow> nat list \<Rightarrow> ustr list option" where
  "matched_loop text f poslist =
     those (map (\<lambda>i. do {
         start \<leftarrow> nth_chk poslist i;
         end \<leftarrow> nth_chk poslist (i + 1);
         Some (f (slice text start end)) })
       (range2 1 (length poslist - 1)))"

definition preserved_loop :: "ustr \<Rightarrow> nat list \<Rightarrow> ustr list list option" where
  "preserved_loop text poslist =
     those (map (\<lambda>i.
         if i + 1 < length poslist then do {
           j \<leftarrow> nth_chk poslist i;
           k \<leftarrow> nth_chk poslist (i + 1);
           Some [slice text j k] }
         else Some [])
       (range2 0 (length poslist)))"

lemma replace_all_loops:
  "replace_all text pattern f = do {
     poslist \<leftarrow> find_all_index text pattern;
     matched_parts \<leftarrow> matched_loop text f poslist;
     preserved \<leftarrow> preserved_loop text poslist;
     Some (concat (map (\<lambda>(orig, transformed). orig @ transformed)
       (zip (if length (concat preserved) < length matched_parts
             then concat preserved @ [[]] else concat preserved)
            (if length matched_parts < length (concat preserved)
             then matched_parts @ [[]] else matched_parts)))) }"
  by (simp add: replace_all_def matched_loop_def preserved_loop_def)

lemma those_map_shift:
  "those (map g (map (\<lambda>i. i + 2) is)) = those (map (\<lambda>i. g (i + 2)) is)"
  by (simp add: comp_def)

lemma matched_loop_Cons:
  "matched_loop text f (i0 # s # e # flat rs @ [n]) =
     map_option (Cons (f (slice text s e))) (matched_loop text f (e # flat rs @ [n]))"
proof -
  have len: "length (i0 # s # e # flat rs @ [n]) - 1 = (length (e # flat rs @ [n]) - 1) + 2"
    by simp
  have one: "1 \<le> length (e # flat rs @ [n]) - 1" by simp
  show ?thesis
    unfolding matched_loop_def len range2_Suc2 [OF one]
    by (simp add: nth_chk_def comp_def cong: if_cong)
qed

lemma matched_loop_Nil: "matched_loop text f [i0, n] = Some []"
  by (simp add: matched_loop_def range2_def)

lemma matched_loop_spans:
  "matched_loop text f (i0 # flat rs @ [n]) = Some (map (\<lambda>(s, e). f (slice text s e)) rs)"
proof (induction rs arbitrary: i0)
  case Nil
  then show ?case by (simp add: matched_loop_Nil)
next
  case (Cons r rs)
  obtain s e where r: "r = (s, e)" by (cases r)
  show ?case unfolding r using Cons [of e] by (simp add: matched_loop_Cons)
qed

fun preserve_regions :: "ustr \<Rightarrow> nat \<Rightarrow> span list \<Rightarrow> nat \<Rightarrow> ustr list" where
  "preserve_regions text i [] n = [slice text i n]"
| "preserve_regions text i ((s, e) # rs) n = slice text i s # preserve_regions text e rs n"

lemma preserved_loop_Cons:
  "preserved_loop text (i0 # s # e # flat rs @ [n]) =
     map_option (Cons [slice text i0 s]) (preserved_loop text (e # flat rs @ [n]))"
proof -
  have len: "length (i0 # s # e # flat rs @ [n]) = length (e # flat rs @ [n]) + 2"
    by simp
  have zero: "0 \<le> length (e # flat rs @ [n])" by simp
  show ?thesis
    unfolding preserved_loop_def len range2_Suc2 [OF zero]
    by (simp add: nth_chk_def comp_def cong: if_cong)
qed

lemma preserved_loop_Nil: "preserved_loop text [i0, n] = Some [[slice text i0 n]]"
  by (simp add: preserved_loop_def range2_def nth_chk_def)

lemma preserved_loop_spans:
  "preserved_loop text (i0 # flat rs @ [n]) =
     Some (map (\<lambda>x. [x]) (preserve_regions text i0 rs n))"
proof (induction rs arbitrary: i0)
  case Nil
  then show ?case by (simp add: preserved_loop_Nil)
next
  case (Cons r rs)
  obtain s e where r: "r = (s, e)" by (cases r)
  show ?case unfolding r using Cons [of e] by (simp add: preserved_loop_Cons)
qed

lemma length_preserve_regions: "length (preserve_regions text i rs n) = Suc (length rs)"
  by (induction rs arbitrary: i) auto

lemma concat_singletons: "concat (map (\<lambda>x. [x]) xs) = xs"
  by (induction xs) auto

lemma interleave_regions:
  "concat (map (\<lambda>(orig, transformed). orig @ transformed)
     (zip (preserve_regions text i rs (length text))
          (map (\<lambda>(s, e). f (slice text s e)) rs @ [[]]))) = concat_regions text f i rs"
  by (induction rs arbitrary: i) auto

text \<open>C3, first half: what \<open>replace_all\<close> returns.\<close>

lemma replace_all_regions:
  assumes "1 \<le> ngroups pattern"
  shows "replace_all text pattern f =
     Some (concat_regions text f 0 (transform_regions (finditer pattern False 0 True text)))"
proof -
  let ?rs = "transform_regions (finditer pattern False 0 True text)"
  have "replace_all text pattern f =
      Some (concat (map (\<lambda>(orig, transformed). orig @ transformed)
       (zip (preserve_regions text 0 ?rs (length text))
            (map (\<lambda>(s, e). f (slice text s e)) ?rs @ [[]]))))"
    unfolding replace_all_loops find_all_index_flat [OF assms]
    by (simp add: matched_loop_spans preserved_loop_spans concat_singletons
        length_preserve_regions)
  then show ?thesis by (simp add: interleave_regions)
qed

text \<open>
  Without a lookahead a group captured during a match lies inside the match.
\<close>

fun no_look :: "regex \<Rightarrow> bool" where
  "no_look (Seq r1 r2) = (no_look r1 \<and> no_look r2)"
| "no_look (Alt r1 r2) = (no_look r1 \<and> no_look r2)"
| "no_look (Star gr r) = no_look r"
| "no_look (Grp n r) = no_look r"
| "no_look (Look r) = False"
| "no_look r = True"

definition captured_inside :: "mstate \<Rightarrow> mstate \<Rightarrow> bool" where
  "captured_inside st st' \<longleftrightarrow>
     advanced st st' \<and>
     list_all (\<lambda>x. x \<in> set (snd (snd (snd st))) \<or>
                 (fst st \<le> fst (snd x) \<and> fst (snd x) \<le> snd (snd x) \<and> snd (snd x) \<le> fst st'))
       (snd (snd (snd st')))"

lemma advanced_le: "advanced st st' \<Longrightarrow> fst st \<le> fst st'"
  by (auto simp: advanced_def)

lemma captured_inside_refl: "captured_inside st st"
  by (simp add: captured_inside_def advanced_refl list_all_iff)

lemma captured_inside_trans:
  assumes "captured_inside a b" and "captured_inside b c"
  shows "captured_inside a c"
proof -
  from assms have ab: "advanced a b" and bc: "advanced b c"
    by (simp_all add: captured_inside_def)
  have le: "fst a \<le> fst b" "fst b \<le> fst c"
    using ab bc by (simp_all add: advanced_le)
  have "x \<in> set (snd (snd (snd a))) \<or>
      (fst a \<le> fst (snd x) \<and> fst (snd x) \<le> snd (snd x) \<and> snd (snd x) \<le> fst c)"
    if x: "x \<in> set (snd (snd (snd c)))" for x
  proof -
    from assms(2) x have "x \<in> set (snd (snd (snd b))) \<or>
        (fst b \<le> fst (snd x) \<and> fst (snd x) \<le> snd (snd x) \<and> snd (snd x) \<le> fst c)"
      by (simp add: captured_inside_def list_all_iff)
    then show ?thesis
    proof
      assume "x \<in> set (snd (snd (snd b)))"
      with assms(1) have "x \<in> set (snd (snd (snd a))) \<or>
          (fst a \<le> fst (snd x) \<and> fst (snd x) \<le> snd (snd x) \<and> snd (snd x) \<le> fst b)"
        by (simp add: captured_inside_def list_all_iff)
      with le show ?thesis by auto
    next
      assume "fst b \<le> fst (snd x) \<and> fst (snd x) \<le> snd (snd x) \<and> snd (snd x) \<le> fst c"
      with le show ?thesis by auto
    qed
  qed
  then show ?thesis
    using advanced_trans [OF ab bc] by (simp add: captured_inside_def list_all_iff)
qed

lemma rmatch_captured:
  "no_look r \<Longrightarrow> st' \<in> set (rmatch r st) \<Longrightarrow> captured_inside st st'"
proof (induction r st arbitrary: st' rule: rmatch.induct)
  case (1 st)
  then show ?case by (simp add: captured_inside_refl)
next
  case (2 cl p b g)
  then show ?case by simp
next
  case (3 cl p b c cs g)
  then have s: "st' = (Suc p, c = nl, cs, g)" by (simp split: if_splits)
  have "advanced (p, b, c # cs, g) st'"
    using 3 by (intro rmatch_advanced [of _ "Sym cl"])
  then show ?case unfolding s by (simp add: captured_inside_def list_all_iff)
next
  case (4 p b cs g)
  then have "st' = (p, b, cs, g)" by (simp split: if_splits)
  then show ?case by (simp add: captured_inside_refl)
next
  case (5 r1 r2 st)
  from 5(3) have n1: "no_look r1" and n2: "no_look r2" by simp_all
  from 5(4) obtain m where m: "m \<in> set (rmatch r1 st)" and s: "st' \<in> set (rmatch r2 m)"
    by (auto simp: concat_map_mem)
  from 5(1) [OF n1 m] 5(2) [OF m n2 s] show ?case by (rule captured_inside_trans)
next
  case (6 r1 r2 st)
  from 6(3) have n1: "no_look r1" and n2: "no_look r2" by simp_all
  from 6(4) have "st' \<in> set (rmatch r1 st) \<or> st' \<in> set (rmatch r2 st)" by simp
  with 6(1) [OF n1] 6(2) [OF n2] show ?case by blast
next
  case (7 n r p b cs g)
  from 7(2) have n1: "no_look r" by simp
  from 7(3) obtain p' b' cs' g' where
    m: "(p', b', cs', g') \<in> set (rmatch r (p, b, cs, g))" and
    s: "st' = (p', b', cs', (n, (p, p')) # g')"
    by (rule grp_mem)
  from 7(1) [OF n1 m] have c: "captured_inside (p, b, cs, g) (p', b', cs', g')" .
  then have "p \<le> p'" by (auto simp: captured_inside_def dest: advanced_le)
  with c show ?case unfolding s by (simp add: captured_inside_def advanced_def)
next
  case (8 r st)
  from 8(3) have n1: "no_look r" by simp
  from 8(4) show ?case
  proof (cases rule: star_mem)
    case 1
    then show ?thesis by (simp add: captured_inside_refl)
  next
    case (2 m)
    from 8(1) [OF n1 2(1)] 8(2) [OF 2(1) 2(2) 8(3) 2(3)] show ?thesis
      by (rule captured_inside_trans)
  next
    case 3
    from 8(1) [OF n1 3(1)] show ?thesis .
  qed
next
  case (9 r st)
  from 9(3) have n1: "no_look r" by simp
  from 9(4) show ?case
  proof (cases rule: star_mem)
    case 1
    then show ?thesis by (simp add: captured_inside_refl)
  next
    case (2 m)
    from 9(1) [OF n1 2(1)] 9(2) [OF 2(1) 2(2) 9(3) 2(3)] show ?thesis
      by (rule captured_inside_trans)
  next
    case 3
    from 9(1) [OF n1 3(1)] show ?thesis .
  qed
next
  case (10 r p b cs g)
  then show ?case by simp
qed

lemma attempt_group:
  assumes "attempt r must (p, b, cs, []) = Some (e, b', cs', g)" and "map_of g n = Some (x, y)"
    and "no_look r"
  shows "p \<le> x \<and> x \<le> y \<and> y \<le> e"
proof -
  from attempt_Some [OF assms(1)] have "captured_inside (p, b, cs, []) (e, b', cs', g)"
    by (auto intro: rmatch_captured [OF assms(3)])
  moreover from assms(2) have "(n, (x, y)) \<in> set g" by (rule map_of_SomeD)
  ultimately show ?thesis by (auto simp: captured_inside_def list_all_iff)
qed

lemma search_group:
  "search r must p b cs = Some (s, (e, b', cs', g)) \<Longrightarrow> map_of g n = Some (x, y) \<Longrightarrow>
     no_look r \<Longrightarrow> s \<le> x \<and> x \<le> y \<and> y \<le> e"
proof (induction r must p b cs rule: search.induct)
  case (1 r must p b)
  from 1(1) have a: "attempt r must (p, b, [], []) = Some (e, b', cs', g)" and s: "s = p"
    by (auto split: option.splits)
  from attempt_group [OF a 1(2) 1(3)] s show ?case by simp
next
  case (2 r must p b c cs)
  show ?case
  proof (cases "attempt r must (p, b, c # cs, [])")
    case None
    with 2(2) have "search r False (Suc p) (c = nl) cs = Some (s, (e, b', cs', g))"
      by simp
    from 2(1) [OF None this 2(3) 2(4)] show ?thesis .
  next
    case (Some z)
    with 2(2) have a: "attempt r must (p, b, c # cs, []) = Some (e, b', cs', g)"
      and s: "s = p"
      by auto
    from attempt_group [OF a 2(3) 2(4)] s show ?thesis by simp
  qed
qed

text \<open>
  The Transform regions lie from left to right in the text, none overlapping another, so
  that they and the Preserve regions between them cover the text once.
\<close>

fun ordered_spans :: "nat \<Rightarrow> span list \<Rightarrow> nat \<Rightarrow> bool" where
  "ordered_spans i [] n = (i \<le> n)"
| "ordered_spans i ((s, e) # rs) n = (i \<le> s \<and> s \<le> e \<and> ordered_spans e rs n)"

lemma ordered_spans_mono: "ordered_spans i rs n \<Longrightarrow> j \<le> i \<Longrightarrow> ordered_spans j rs n"
  by (cases rs) auto

lemma finditer_ordered:
  "no_look r \<Longrightarrow>
   ordered_spans p (transform_regions (finditer r must p b cs)) (p + length cs)"
proof (induction r must p b cs rule: finditer.induct)
  case (1 r must p b cs)
  show ?case
  proof (cases "search r must p b cs")
    case None
    then show ?thesis by (simp add: finditer.simps)
  next
    case (Some z)
    obtain s e b' cs' g where z: "z = (s, (e, b', cs', g))" by (cases z) auto
    have sr: "search r must p b cs = Some (s, (e, b', cs', g))" using Some z by simp
    from search_bounds [OF sr] have
      sb: "p \<le> s" "s \<le> e" "e + length cs' = p + length cs"
      by simp_all
    from "1.IH" [OF Some z [symmetric] refl refl refl "1.prems"]
    have ih: "ordered_spans e (transform_regions (finditer r (e = s) e b' cs')) (p + length cs)"
      using sb by simp
    have fi: "finditer r must p b cs = ((s, e), g) # finditer r (e = s) e b' cs'"
      using sr by (simp add: finditer.simps)
    show ?thesis
    proof (cases "map_of g 1")
      case None
      have "p \<le> e" using sb by simp
      from ordered_spans_mono [OF ih this] show ?thesis using fi None by simp
    next
      case (Some sp)
      obtain x y where sp: "sp = (x, y)" by (cases sp)
      from search_group [OF sr Some [unfolded sp] "1.prems"] have
        g: "s \<le> x" "x \<le> y" "y \<le> e"
        by simp_all
      from ordered_spans_mono [OF ih g(3)] show ?thesis using fi Some sp g sb by simp
    qed
  qed
qed

lemma slice_drop: "i \<le> s \<Longrightarrow> slice text i s @ drop s text = drop i text"
proof -
  assume "i \<le> s"
  then have "drop s text = drop (s - i) (drop i text)" by simp
  then show ?thesis unfolding slice_def by (metis append_take_drop_id)
qed

lemma slice_to_end: "slice text i (length text) = drop i text"
  by (simp add: slice_def)

lemma concat_regions_id:
  "ordered_spans i rs (length text) \<Longrightarrow> concat_regions text (\<lambda>x. x) i rs = drop i text"
proof (induction rs arbitrary: i)
  case Nil
  then show ?case by (simp add: slice_to_end)
next
  case (Cons r rs)
  obtain s e where r: "r = (s, e)" by (cases r)
  from Cons.prems r have o: "i \<le> s" "s \<le> e" "ordered_spans e rs (length text)" by simp_all
  from Cons.IH [OF o(3)] have "concat_regions text (\<lambda>x. x) i (r # rs) =
      slice text i s @ slice text s e @ drop e text"
    using r by simp
  also have "\<dots> = drop i text"
    using slice_drop [OF o(1), of "text"] slice_drop [OF o(2), of "text"] by simp
  finally show ?case .
qed

text \<open>
  A pattern with a lookahead can capture text that its match does not consume, and the
  next match starts inside the captured text.  For \<open>x|(?=(aa))a\<close> on \<open>aaa\<close> the index list
  is \<open>[0, 0, 2, 1, 3, 3]\<close>: the two Transform regions overlap, and \<open>replace_all\<close> with the
  identity returns four characters for three.
\<close>

definition pat_overlap :: regex where \<comment> \<open>\<open>x|(?=(aa))a\<close>\<close>
  "pat_overlap =
     Alt (lit (ch CHR ''x'')) (Seq (Look (Grp 1 (lits (str ''aa'')))) (lit (ch CHR ''a'')))"

theorem replace_all_overlap_counterexample:
  "find_all_index (str ''aaa'') pat_overlap = Some [0, 0, 2, 1, 3, 3] \<and>
   replace_all (str ''aaa'') pat_overlap (\<lambda>x. x) = Some (str ''aaaa'') \<and>
   replace_all (str ''aaa'') pat_overlap (\<lambda>x. x) \<noteq> Some (str ''aaa'')"
  by (simp add: eval_defs pat_overlap_def lit_def cong: bind_weak_cong)

text \<open>
  C3, for the patterns without a lookahead (literals, classes, \<open>^\<close>, concatenation,
  alternation, repetition and groups): \<open>replace_all\<close> returns the Preserve regions as they
  are in the text and \<open>f\<close> of each Transform region, in their order; the regions lie in
  order in the text and do not overlap; and with the identity for \<open>f\<close> the text comes
  back.  The pattern needs a group 1, which the target arm of a two-armed pattern is.
\<close>

theorem replace_all_selective:
  assumes "1 \<le> ngroups pattern" and "no_look pattern"
  shows "replace_all text pattern f =
      Some (concat_regions text f 0 (transform_regions (finditer pattern False 0 True text)))
    \<and> ordered_spans 0 (transform_regions (finditer pattern False 0 True text)) (length text)
    \<and> replace_all text pattern (\<lambda>x. x) = Some text"
proof -
  have o: "ordered_spans 0 (transform_regions (finditer pattern False 0 True text)) (length text)"
    using finditer_ordered [OF assms(2), of 0 False True "text"] by simp
  from concat_regions_id [OF o] show ?thesis
    using o by (simp add: replace_all_regions [OF assms(1)])
qed

theorem replace_all_selective_witness:
  "1 \<le> ngroups pat_tick \<and> no_look pat_tick \<and>
   replace_all (str ''a`b'' @ [bsl, btk]) pat_tick (\<lambda>x. [bsl] @ x) =
     Some (str ''a'' @ [bsl, btk] @ str ''b'' @ [bsl, btk]) \<and>
   transform_regions (finditer pat_tick False 0 True (str ''a`b'' @ [bsl, btk])) = [(1, 2)] \<and>
   replace_all (str ''a`b'' @ [bsl, btk]) pat_tick (\<lambda>x. x) = Some (str ''a`b'' @ [bsl, btk])"
proof -
  have n: "1 \<le> ngroups pat_tick" "no_look pat_tick" by (simp_all add: pat_defs)
  have r: "transform_regions (finditer pat_tick False 0 True (str ''a`b'' @ [bsl, btk])) = [(1, 2)]"
    by (simp add: eval_defs pat_defs)
  from replace_all_selective [OF n, of "str ''a`b'' @ [bsl, btk]" "\<lambda>x. [bsl] @ x"]
  show ?thesis using n unfolding r by (simp add: str_def slice_def)
qed

section \<open>Totality\<close>

text \<open>
  \<open>re.sub\<close> raises only for a template that names a group the pattern does not have,
  \<open>replace_all\<close> only for a pattern without group 1.  The patterns and templates of
  \<open>escape\<close> are fixed, so no pass of it fails.
\<close>

lemma re_sub_total:
  "list_all (titem_ok pattern) repl \<Longrightarrow> \<exists>out. re_sub pattern repl text = Some out"
  by (simp add: re_sub_def)

lemma sub_lit_total: "\<exists>out. sub_lit pattern repl text = Some out"
  by (simp add: sub_lit_def re_sub_def)

lemma replace_all_total:
  "1 \<le> ngroups pattern \<Longrightarrow> \<exists>out. replace_all text pattern f = Some out"
  by (simp add: replace_all_regions)

lemma fix_lines_total: "\<exists>out. fix_lines in_code_block lines = Some out"
proof (induction lines arbitrary: in_code_block)
  case Nil
  show ?case by simp
next
  case (Cons line lines)
  obtain a where a: "fix_lines in_code_block lines = Some a" using Cons by blast
  obtain b where b: "fix_lines (\<not> in_code_block) lines = Some b" using Cons by blast
  obtain c where c: "re_sub pat_escaped_tick [] line = Some c"
    using re_sub_total [of pat_escaped_tick "[]" line] by auto
  have "1 \<le> ngroups pat_tick" by (simp add: pat_tick_def)
  from replace_all_total [OF this] obtain d
    where d: "replace_all line pat_tick (\<lambda>x. [bsl] @ x) = Some d" by blast
  show ?case using a b by (cases in_code_block) (simp_all add: c d)
qed

lemma fix_uneven_backticks_total: "\<exists>out. fix_uneven_backticks text = Some out"
  using fix_lines_total [of False "split_on nl text"] by (auto simp: fix_uneven_backticks_def)

lemma bind_total:
  "\<exists>x. m = Some x \<Longrightarrow> (\<And>x. \<exists>y. f x = Some y) \<Longrightarrow> \<exists>y. Option.bind m f = Some y"
  by auto

lemma if_total:
  "\<exists>x. m = Some x \<Longrightarrow> \<exists>x. (if c then m else Some t) = Some x"
  by auto

text \<open>
  C5: for every text and either value of the flag, \<open>escape\<close> returns a string: no pass
  takes an error branch.
\<close>

theorem escape_total: "\<exists>out. escape text flag = Some out"
  unfolding escape_def
  by (intro bind_total if_total sub_lit_total fix_uneven_backticks_total
      re_sub_total replace_all_total; simp add: pat_defs str_def)

section \<open>Matching step by step\<close>

text \<open>
  \<open>finditer\<close> unfolded at one position of the text: no match starts here and the search
  moves on, or a match that is not empty starts here.
\<close>

lemma finditer_end:
  "rmatch r (p, b, [], []) = [] \<Longrightarrow> finditer r must p b [] = []"
  by (simp add: finditer.simps attempt_def)

lemma finditer_skip:
  "rmatch r (p, b, c # cs, []) = [] \<Longrightarrow>
   finditer r must p b (c # cs) = finditer r False (Suc p) (c = nl) cs"
  by (simp add: finditer.simps [of r must p b "c # cs"] finditer.simps [of r False "Suc p" _ cs]
      attempt_def)

lemma finditer_hit:
  assumes "rmatch r (p, b, cs, []) = (e, b', cs', g) # rest" and "e \<noteq> p"
  shows "finditer r must p b cs = ((p, e), g) # finditer r False e b' cs'"
proof -
  have "attempt r must (p, b, cs, []) = Some (e, b', cs', g)"
    using assms by (simp add: attempt_def)
  then have "search r must p b cs = Some (p, (e, b', cs', g))"
    by (cases cs) simp_all
  then show ?thesis using assms(2) by (simp add: finditer.simps [of r must p b cs])
qed

lemma finditer_first:
  assumes "finditer r must p b cs = ((s, e), g) # ms"
  shows "p \<le> s \<and> s \<le> e \<and> e \<le> p + length cs"
proof (cases "search r must p b cs")
  case None
  with assms show ?thesis by (simp add: finditer.simps [of r must p b cs])
next
  case (Some z)
  obtain s' e' b' cs' g' where z: "z = (s', (e', b', cs', g'))" by (cases z) auto
  from Some z assms have "s' = s" "e' = e"
    by (simp_all add: finditer.simps [of r must p b cs])
  with search_bounds [OF Some [unfolded z]] show ?thesis by simp
qed

lemma slice_at: "length pre = p \<Longrightarrow> slice (pre @ cs) p (p + k) = take k cs"
  by (simp add: slice_def)

lemma slice_empty: "slice text p p = []"
  by (simp add: slice_def)

lemma slice_Cons:
  assumes "length pre = p" "p < s"
  shows "slice (pre @ c # cs) p s = c # slice (pre @ c # cs) (Suc p) s"
proof -
  obtain k where k: "s = Suc p + k" using assms(2) less_iff_Suc_add by auto
  have "slice (pre @ c # cs) p s = take (Suc k) (c # cs)"
    using slice_at [OF assms(1), of "c # cs" "Suc k"] k by simp
  moreover have "slice ((pre @ [c]) @ cs) (Suc p) (Suc p + k) = take k cs"
    by (rule slice_at) (simp add: assms(1))
  ultimately show ?thesis using k by simp
qed

lemma sub_join_skip:
  assumes "length pre = p" and "\<And>s e g ms'. ms = ((s, e), g) # ms' \<Longrightarrow> p < s"
  shows "sub_join (pre @ c # cs) tpl p ms = c # sub_join (pre @ c # cs) tpl (Suc p) ms"
proof (cases ms)
  case Nil
  then show ?thesis using assms(1) by (simp add: Cons_nth_drop_Suc [symmetric])
next
  case (Cons m ms')
  obtain s e g where m: "m = ((s, e), g)" by (cases m) auto
  from assms(2) [OF Cons [unfolded m]] have "p < s" .
  from slice_Cons [OF assms(1) this] show ?thesis using Cons m by simp
qed

lemma concat_regions_skip:
  assumes "length pre = p" and "\<And>s e rs'. rs = (s, e) # rs' \<Longrightarrow> p < s"
  shows "concat_regions (pre @ c # cs) f p rs = c # concat_regions (pre @ c # cs) f (Suc p) rs"
proof (cases rs)
  case Nil
  have "slice (pre @ c # cs) p (length (pre @ c # cs)) =
      c # slice (pre @ c # cs) (Suc p) (length (pre @ c # cs))"
    by (rule slice_Cons [OF assms(1)]) (simp add: assms(1) [symmetric])
  then show ?thesis using Nil by simp
next
  case (Cons m rs')
  obtain s e where m: "m = (s, e)" by (cases m) auto
  from assms(2) [OF Cons [unfolded m]] have "p < s" .
  from slice_Cons [OF assms(1) this] show ?thesis using Cons m by simp
qed

lemma sub_join_next:
  assumes "length pre = p"
  shows "sub_join (pre @ c # cs) tpl p (finditer r must (Suc p) b cs) =
    c # sub_join (pre @ c # cs) tpl (Suc p) (finditer r must (Suc p) b cs)"
proof (rule sub_join_skip [OF assms])
  fix s e g ms'
  assume "finditer r must (Suc p) b cs = ((s, e), g) # ms'"
  from finditer_first [OF this] show "p < s" by simp
qed

lemma transform_regions_first:
  assumes "transform_regions (finditer r must p b cs) = (s, e) # rs" and "no_look r"
  shows "p \<le> s"
  using finditer_ordered [OF assms(2), of p must b cs] assms(1) by simp

lemma concat_regions_next:
  assumes "length pre = p" and "no_look r"
  shows "concat_regions (pre @ c # cs) f p (transform_regions (finditer r must (Suc p) b cs)) =
    c # concat_regions (pre @ c # cs) f (Suc p) (transform_regions (finditer r must (Suc p) b cs))"
proof (rule concat_regions_skip [OF assms(1)])
  fix s e rs'
  assume "transform_regions (finditer r must (Suc p) b cs) = (s, e) # rs'"
  from transform_regions_first [OF this assms(2)] show "p < s" by simp
qed

section \<open>The parity fixer\<close>

text \<open>
  What the two regular expressions of \<open>fix_uneven_backticks\<close> compute, character by
  character.  \<open>strip_escaped\<close> removes each backslash-backtick pair, from the left;
  \<open>escape_ticks\<close> keeps such a pair and puts a backslash before every other backtick.
\<close>

fun strip_escaped :: "ustr \<Rightarrow> ustr" where
  "strip_escaped (a # c # cs) =
     (if a = bsl \<and> c = btk then strip_escaped cs else a # strip_escaped (c # cs))"
| "strip_escaped [a] = [a]"
| "strip_escaped [] = []"

fun escape_ticks :: "ustr \<Rightarrow> ustr" where
  "escape_ticks (a # c # cs) =
     (if a = bsl \<and> c = btk then bsl # btk # escape_ticks cs
      else if a = btk then bsl # btk # escape_ticks (c # cs)
      else a # escape_ticks (c # cs))"
| "escape_ticks [a] = (if a = btk then [bsl, btk] else [a])"
| "escape_ticks [] = []"

lemma sub_escaped_tick:
  "length pre = p \<Longrightarrow>
   sub_join (pre @ cs) [] p (finditer pat_escaped_tick False p b cs) = strip_escaped cs"
proof (induction cs arbitrary: pre p b rule: strip_escaped.induct)
  case (1 a c cs)
  show ?case
  proof (cases "a = bsl \<and> c = btk")
    case True
    have "rmatch pat_escaped_tick (p, b, a # c # cs, []) = [(Suc (Suc p), False, cs, [])]"
      using True by (simp add: pat_escaped_tick_def)
    from finditer_hit [OF this] have
      "finditer pat_escaped_tick False p b (a # c # cs) =
        ((p, Suc (Suc p)), []) # finditer pat_escaped_tick False (Suc (Suc p)) False cs"
      by simp
    moreover have "sub_join ((pre @ [a, c]) @ cs) [] (Suc (Suc p))
        (finditer pat_escaped_tick False (Suc (Suc p)) False cs) = strip_escaped cs"
      using True by (intro "1.IH"(1)) (simp_all add: "1.prems")
    ultimately show ?thesis using True by (simp add: slice_empty)
  next
    case False
    have "rmatch pat_escaped_tick (p, b, a # c # cs, []) = []"
      using False by (auto simp: pat_escaped_tick_def)
    from finditer_skip [OF this] have
      f: "finditer pat_escaped_tick False p b (a # c # cs) =
        finditer pat_escaped_tick False (Suc p) (a = nl) (c # cs)" .
    have "sub_join ((pre @ [a]) @ c # cs) [] (Suc p)
        (finditer pat_escaped_tick False (Suc p) (a = nl) (c # cs)) = strip_escaped (c # cs)"
      using False by (intro "1.IH"(2)) (simp_all add: "1.prems")
    then show ?thesis
      using False sub_join_next [OF "1.prems", of a "c # cs" "[]" pat_escaped_tick False "a = nl"]
      by (auto simp: f)
  qed
next
  case (2 v)
  have "rmatch pat_escaped_tick (p, b, [v], []) = []"
    by (simp add: pat_escaped_tick_def)
  from finditer_skip [OF this] have
    "finditer pat_escaped_tick False p b [v] = finditer pat_escaped_tick False (Suc p) (v = nl) []" .
  also have "\<dots> = []" by (rule finditer_end) (simp add: pat_escaped_tick_def)
  finally show ?case using 2 by simp
next
  case 3
  have "finditer pat_escaped_tick False p b [] = []"
    by (rule finditer_end) (simp add: pat_escaped_tick_def)
  then show ?case using 3 by simp
qed

lemma re_sub_escaped_tick: "re_sub pat_escaped_tick [] line = Some (strip_escaped line)"
  using sub_escaped_tick [of "[]" 0 line True] by (simp add: re_sub_def)

lemma slice_one: "length pre = p \<Longrightarrow> slice (pre @ c # cs) p (Suc p) = [c]"
  by (simp add: slice_def)

lemma slice_rest: "length pre = p \<Longrightarrow> slice (pre @ cs) p (length (pre @ cs)) = cs"
  by (simp add: slice_def)

lemma regions_tick:
  "length pre = p \<Longrightarrow>
   concat_regions (pre @ cs) (\<lambda>x. [bsl] @ x) p
     (transform_regions (finditer pat_tick False p b cs)) = escape_ticks cs"
proof (induction cs arbitrary: pre p b rule: escape_ticks.induct)
  case (1 a c cs)
  let ?f = "\<lambda>x. [bsl] @ x"
  let ?text = "pre @ a # c # cs"
  have nl: "no_look pat_tick" by (simp add: pat_tick_def lit_def)
  consider (pair) "a = bsl \<and> c = btk" | (tick) "a = btk" | (other) "a \<noteq> btk" "\<not> (a = bsl \<and> c = btk)"
    by blast
  then show ?case
  proof cases
    case pair
    let ?rs = "transform_regions (finditer pat_tick False (Suc (Suc p)) False cs)"
    have "rmatch pat_tick (p, b, a # c # cs, []) = [(Suc (Suc p), False, cs, [])]"
      using pair by (simp add: pat_tick_def lit_def)
    from finditer_hit [OF this] have
      f: "finditer pat_tick False p b (a # c # cs) =
        ((p, Suc (Suc p)), []) # finditer pat_tick False (Suc (Suc p)) False cs"
      by simp
    have first: "Suc p < s" if "?rs = (s, e) # rs'" for s e rs'
      using transform_regions_first [OF that nl] by simp
    have "concat_regions ?text ?f p ?rs = a # concat_regions ?text ?f (Suc p) ?rs"
    proof (rule concat_regions_skip [OF "1.prems"])
      fix s e rs' assume "?rs = (s, e) # rs'"
      from first [OF this] show "p < s" by simp
    qed
    moreover have "concat_regions ((pre @ [a]) @ c # cs) ?f (Suc p) ?rs =
        c # concat_regions ((pre @ [a]) @ c # cs) ?f (Suc (Suc p)) ?rs"
    proof (rule concat_regions_skip)
      show "length (pre @ [a]) = Suc p" using "1.prems" by simp
    next
      fix s e rs' assume "?rs = (s, e) # rs'"
      from first [OF this] show "Suc p < s" .
    qed
    moreover have "concat_regions ((pre @ [a, c]) @ cs) ?f (Suc (Suc p)) ?rs = escape_ticks cs"
      using pair by (intro "1.IH"(1)) (simp_all add: "1.prems")
    ultimately show ?thesis using pair f by simp
  next
    case tick
    have "rmatch pat_tick (p, b, a # c # cs, []) = [(Suc p, False, c # cs, [(1, (p, Suc p))])]"
      using tick by (simp add: pat_tick_def lit_def)
    from finditer_hit [OF this] have
      f: "finditer pat_tick False p b (a # c # cs) =
        ((p, Suc p), [(1, (p, Suc p))]) # finditer pat_tick False (Suc p) False (c # cs)"
      by simp
    have "concat_regions ((pre @ [a]) @ c # cs) ?f (Suc p)
        (transform_regions (finditer pat_tick False (Suc p) False (c # cs))) =
        escape_ticks (c # cs)"
      using tick by (intro "1.IH"(2)) (simp_all add: "1.prems")
    then show ?thesis
      using tick f slice_one [OF "1.prems", of a "c # cs"] by (simp add: slice_empty)
  next
    case other
    have "rmatch pat_tick (p, b, a # c # cs, []) = []"
      using other by (auto simp: pat_tick_def lit_def)
    from finditer_skip [OF this] have
      f: "finditer pat_tick False p b (a # c # cs) =
        finditer pat_tick False (Suc p) (a = nl) (c # cs)" .
    have "concat_regions ((pre @ [a]) @ c # cs) ?f (Suc p)
        (transform_regions (finditer pat_tick False (Suc p) (a = nl) (c # cs))) =
        escape_ticks (c # cs)"
      using other by (intro "1.IH"(3)) (simp_all add: "1.prems")
    then show ?thesis
      using other f concat_regions_next [OF "1.prems" nl, of a "c # cs" ?f False "a = nl"]
      by auto
  qed
next
  case (2 a)
  have e: "finditer pat_tick False (Suc p) bb [] = []" for bb
    by (rule finditer_end) (simp add: pat_tick_def lit_def)
  show ?case
  proof (cases "a = btk")
    case True
    have "rmatch pat_tick (p, b, [a], []) = [(Suc p, False, [], [(1, (p, Suc p))])]"
      using True by (simp add: pat_tick_def lit_def)
    from finditer_hit [OF this] have
      "finditer pat_tick False p b [a] = [((p, Suc p), [(1, (p, Suc p))])]"
      by (simp add: e)
    then show ?thesis
      using True slice_one [OF "2.prems", of a "[]"] "2.prems"
      by (simp add: slice_empty slice_def)
  next
    case False
    have "rmatch pat_tick (p, b, [a], []) = []"
      using False by (simp add: pat_tick_def lit_def)
    from finditer_skip [OF this] have "finditer pat_tick False p b [a] = []"
      by (simp add: e)
    then show ?thesis using False slice_rest [OF "2.prems", of "[a]"] by simp
  qed
next
  case 3
  have "finditer pat_tick False p b [] = []"
    by (rule finditer_end) (simp add: pat_tick_def lit_def)
  then show ?case using slice_rest [OF "3.prems", of "[]"] by simp
qed

lemma replace_all_tick:
  "replace_all line pat_tick (\<lambda>x. [bsl] @ x) = Some (escape_ticks line)"
proof -
  have "1 \<le> ngroups pat_tick" by (simp add: pat_tick_def lit_def)
  from replace_all_regions [OF this] show ?thesis
    using regions_tick [of "[]" 0 line True] by simp
qed

text \<open>Lines: \<open>split\<close> and \<open>join\<close> are inverse to each other.\<close>

lemma split_on_not_Nil: "split_on d text \<noteq> []"
  by (induction "text") (auto split: list.splits)



lemma split_on_free: "l \<in> set (split_on d text) \<Longrightarrow> d \<notin> set l"
proof (induction "text" arbitrary: l)
  case Nil
  then show ?case by simp
next
  case (Cons c cs)
  obtain l0 ls where s: "split_on d cs = l0 # ls"
    using split_on_not_Nil [of d cs] by (cases "split_on d cs") auto
  show ?case
  proof (cases "c = d")
    case True
    with Cons.prems have "l = [] \<or> l \<in> set (split_on d cs)" by simp
    with Cons.IH show ?thesis by auto
  next
    case False
    with Cons.prems s have "l = c # l0 \<or> l \<in> set ls" by simp
    moreover have "d \<notin> set l0" using Cons.IH [of l0] s by simp
    moreover have "l \<in> set ls \<Longrightarrow> d \<notin> set l" using Cons.IH [of l] s by simp
    ultimately show ?thesis using False by auto
  qed
qed

lemma split_on_append:
  "d \<notin> set l \<Longrightarrow> split_on d (l @ d # text) = l # split_on d text"
  by (induction l) auto

lemma split_on_line: "d \<notin> set l \<Longrightarrow> split_on d l = [l]"
  by (induction l) auto

lemma split_on_join:
  "ls \<noteq> [] \<Longrightarrow> \<forall>l\<in>set ls. d \<notin> set l \<Longrightarrow> split_on d (join [d] ls) = ls"
proof (induction ls)
  case Nil
  then show ?case by simp
next
  case (Cons l ls)
  show ?case
  proof (cases ls)
    case Nil
    then show ?thesis using Cons.prems by (simp add: split_on_line)
  next
    case (Cons l' ls')
    then have "split_on d (join [d] ls) = ls" using Cons.IH Cons.prems by simp
    then show ?thesis using Cons Cons.prems by (simp add: split_on_append)
  qed
qed

text \<open>
  The specification's words for the parity fixer.  A backtick is escaped when the
  character before it is a backslash; the flag says whether the character before is one.
  A line is a fence delimiter when its trimmed content starts with three backticks; every
  delimiter turns the fence state over, and the other lines are inside or outside a fence
  by that state.
\<close>

fun unescaped :: "bool \<Rightarrow> ustr \<Rightarrow> nat" where
  "unescaped esc [] = 0"
| "unescaped esc (c # cs) = (if c = btk \<and> \<not> esc then 1 else 0) + unescaped (c = bsl) cs"

definition unescaped_ticks :: "ustr \<Rightarrow> nat" where
  "unescaped_ticks line = unescaped False line"



definition is_fence_line :: "ustr \<Rightarrow> bool" where
  "is_fence_line line = startswith (strip line) (str ''```'')"

datatype line_kind = Delimiter | Inside | Outside

fun line_kinds :: "bool \<Rightarrow> ustr list \<Rightarrow> line_kind list" where
  "line_kinds inside [] = []"
| "line_kinds inside (l # ls) =
     (if is_fence_line l then Delimiter # line_kinds (\<not> inside) ls
      else (if inside then Inside else Outside) # line_kinds inside ls)"

text \<open>The loop of \<open>fix_uneven_backticks\<close>, line by line.\<close>

fun fixed_lines :: "bool \<Rightarrow> ustr list \<Rightarrow> ustr list" where
  "fixed_lines inside [] = []"
| "fixed_lines inside (l # ls) =
     (if is_fence_line l then l # fixed_lines (\<not> inside) ls
      else if \<not> inside \<and> odd (unescaped_ticks l) then escape_ticks l # fixed_lines inside ls
      else l # fixed_lines inside ls)"

lemma unescaped_other: "c \<noteq> btk \<Longrightarrow> unescaped e (c # cs) = unescaped e' (c # cs)"
  by simp

lemma count_strip_escaped: "count_list (strip_escaped cs) btk = unescaped False cs"
proof (induction cs rule: strip_escaped.induct)
  case (1 a c cs)
  show ?case
  proof (cases "a = bsl \<and> c = btk")
    case True
    then show ?thesis using 1 by simp
  next
    case False
    then have "unescaped (a = bsl) (c # cs) = unescaped False (c # cs)"
      by (cases "a = bsl") simp_all
    then show ?thesis using False 1 by auto
  qed
qed simp_all









lemma set_escape_ticks: "set (escape_ticks cs) \<subseteq> insert bsl (set cs)"
  by (induction cs rule: escape_ticks.induct) auto

lemma fix_lines_fixed: "fix_lines inside ls = Some (fixed_lines inside ls)"
proof (induction ls arbitrary: inside)
  case Nil
  show ?case by simp
next
  case (Cons l ls)
  have o: "odd (unescaped_ticks l) = (count_list (strip_escaped l) btk mod 2 = Suc 0)"
    by (simp add: count_strip_escaped unescaped_ticks_def odd_iff_mod_2_eq_one)
  show ?case
    unfolding fix_lines.simps fixed_lines.simps Cons.IH re_sub_escaped_tick replace_all_tick
      is_fence_line_def [symmetric]
    by (simp add: o)
qed

lemma length_fixed_lines: "length (fixed_lines inside ls) = length ls"
  by (induction ls arbitrary: inside) simp_all


lemma length_line_kinds: "length (line_kinds inside ls) = length ls"
  by (induction ls arbitrary: inside) simp_all

lemma fixed_lines_same:
  "i < length ls \<Longrightarrow>
   line_kinds inside ls ! i = Delimiter \<or> line_kinds inside ls ! i = Inside \<or>
     even (unescaped_ticks (ls ! i)) \<Longrightarrow>
   fixed_lines inside ls ! i = ls ! i"
proof (induction ls arbitrary: i inside)
  case Nil
  then show ?case by simp
next
  case (Cons l ls)
  show ?case
  proof (cases i)
    case 0
    with Cons.prems show ?thesis by (auto split: if_splits)
  next
    case (Suc j)
    with Cons.prems Cons.IH [of j] show ?thesis by (auto split: if_splits)
  qed
qed


lemma fixed_lines_free:
  "\<forall>l\<in>set ls. nl \<notin> set l \<Longrightarrow> \<forall>l\<in>set (fixed_lines inside ls). nl \<notin> set l"
proof (induction ls arbitrary: inside)
  case Nil
  show ?case by simp
next
  case (Cons l ls)
  have "nl \<notin> set (escape_ticks l)" using set_escape_ticks [of l] Cons.prems by auto
  then show ?case using Cons by simp
qed

text \<open>The lines of the result are the fixed lines of the text.\<close>

lemma fix_uneven_backticks_lines:
  "\<exists>out. fix_uneven_backticks text = Some out \<and>
     split_on nl out = fixed_lines False (split_on nl text)"
proof -
  let ?ls = "fixed_lines False (split_on nl text)"
  have "?ls \<noteq> []"
    using length_fixed_lines [of False "split_on nl text"] split_on_not_Nil [of nl "text"]
    by (metis length_0_conv)
  moreover have "\<forall>l\<in>set ?ls. nl \<notin> set l"
    by (rule fixed_lines_free) (simp add: split_on_free)
  ultimately have "split_on nl (join [nl] ?ls) = ?ls" by (rule split_on_join)
  then show ?thesis by (simp add: fix_uneven_backticks_def fix_lines_fixed)
qed




text \<open>
  C9: \<open>fix_uneven_backticks\<close> returns a string with as many lines as its input has, and
  every delimiter line, every line inside a fence and every line outside a fence with an
  even number of unescaped backticks comes back unchanged.
\<close>

theorem fix_uneven_backticks_frame:
  "\<exists>out. fix_uneven_backticks text = Some out \<and>
     length (split_on nl out) = length (split_on nl text) \<and>
     (\<forall>i<length (split_on nl text).
        line_kinds False (split_on nl text) ! i = Delimiter \<or>
        line_kinds False (split_on nl text) ! i = Inside \<or>
        (line_kinds False (split_on nl text) ! i = Outside \<and>
         even (unescaped_ticks (split_on nl text ! i))) \<longrightarrow>
        split_on nl out ! i = split_on nl text ! i)"
proof -
  from fix_uneven_backticks_lines obtain out where
    o: "fix_uneven_backticks text = Some out"
      "split_on nl out = fixed_lines False (split_on nl text)"
    by blast
  have "length (split_on nl out) = length (split_on nl text)"
    by (simp add: o(2) length_fixed_lines)
  moreover have "split_on nl out ! i = split_on nl text ! i"
    if "i < length (split_on nl text)"
      "line_kinds False (split_on nl text) ! i = Delimiter \<or>
       line_kinds False (split_on nl text) ! i = Inside \<or>
       (line_kinds False (split_on nl text) ! i = Outside \<and>
        even (unescaped_ticks (split_on nl text ! i)))" for i
    unfolding o(2) using that by (intro fixed_lines_same) auto
  ultimately show ?thesis using o(1) by blast
qed

theorem fix_uneven_backticks_frame_witness:
  "fix_uneven_backticks
     (str ''a`b'' @ [nl] @ str ''```'' @ [nl] @ str ''`'' @ [nl] @ str ''```'' @ [nl] @ str ''``'') =
   Some (str ''a'' @ [bsl] @ str ''`b'' @ [nl] @ str ''```'' @ [nl] @ str ''`'' @ [nl] @
     str ''```'' @ [nl] @ str ''``'') \<and>
   line_kinds False (split_on nl
     (str ''a`b'' @ [nl] @ str ''```'' @ [nl] @ str ''`'' @ [nl] @ str ''```'' @ [nl] @ str ''``'')) =
     [Outside, Delimiter, Inside, Delimiter, Outside] \<and>
   map (\<lambda>i. split_on nl (str ''a'' @ [bsl] @ str ''`b'' @ [nl] @ str ''```'' @ [nl] @ str ''`'' @
     [nl] @ str ''```'' @ [nl] @ str ''``'') ! i) [1, 2, 3, 4] =
   [str ''```'', str ''`'', str ''```'', str ''``'']"
proof -
  let ?T = "str ''a`b'' @ [nl] @ str ''```'' @ [nl] @ str ''`'' @ [nl] @ str ''```'' @ [nl] @
    str ''``''"
  let ?T' = "str ''a'' @ [bsl] @ str ''`b'' @ [nl] @ str ''```'' @ [nl] @ str ''`'' @ [nl] @
    str ''```'' @ [nl] @ str ''``''"
  have e: "fix_uneven_backticks ?T = Some ?T'"
    by (simp add: eval_defs pat_defs cong: bind_weak_cong)
  have l: "split_on nl ?T = [str ''a`b'', str ''```'', str ''`'', str ''```'', str ''``'']"
    by (simp add: str_def)
  have k: "line_kinds False (split_on nl ?T) = [Outside, Delimiter, Inside, Delimiter, Outside]"
    unfolding l by (simp add: is_fence_line_def eval_defs)
  have u: "even (unescaped_ticks (split_on nl ?T ! 4))"
    unfolding l by (simp add: unescaped_ticks_def str_def)
  from fix_uneven_backticks_frame [of ?T] obtain out where
    o: "fix_uneven_backticks ?T = Some out"
      "\<forall>i<length (split_on nl ?T).
        line_kinds False (split_on nl ?T) ! i = Delimiter \<or>
        line_kinds False (split_on nl ?T) ! i = Inside \<or>
        (line_kinds False (split_on nl ?T) ! i = Outside \<and>
         even (unescaped_ticks (split_on nl ?T ! i))) \<longrightarrow>
        split_on nl out ! i = split_on nl ?T ! i"
    by blast
  from o(1) e have out: "out = ?T'" by simp
  have len: "length (split_on nl ?T) = 5" unfolding l by simp
  have "split_on nl out ! 1 = split_on nl ?T ! 1" using o(2) [rule_format, of 1] k len by simp
  moreover have "split_on nl out ! 2 = split_on nl ?T ! 2"
    using o(2) [rule_format, of 2] k len by simp
  moreover have "split_on nl out ! 3 = split_on nl ?T ! 3"
    using o(2) [rule_format, of 3] k len by simp
  moreover have "split_on nl out ! 4 = split_on nl ?T ! 4"
    using o(2) [rule_format, of 4] k len u by simp
  ultimately have "map (\<lambda>i. split_on nl ?T' ! i) [1, 2, 3, 4] =
      [str ''```'', str ''`'', str ''```'', str ''``'']"
    unfolding out l by simp
  with e k show ?thesis by blast
qed



section \<open>Counterexamples\<close>




text \<open>
  A period inside a fenced block is escaped like any other: the last passes run over
  the whole text, after the blocks have been put back.
\<close>

theorem escape_fence_counterexample:
  "escape (str ''```a.b```'') False = Some (str ''```a'' @ [bsl] @ str ''.b```'') \<and>
   str ''a'' @ [bsl] @ str ''.b'' \<noteq> str ''a.b''"
  by (simp add: escape_def eval_defs pat_defs cong: bind_weak_cong)


text \<open>
  A numbered line after two newlines has two newlines before it in the output, not
  three.
\<close>

theorem escape_numbered_counterexample:
  "escape (str ''a'' @ [nl, nl] @ str ''1. x'') False =
     Some (str ''a'' @ [nl, nl] @ str ''1'' @ [bsl] @ str ''. x'') \<and>
   str ''a'' @ [nl, nl] @ str ''1'' @ [bsl] @ str ''. x'' \<noteq>
     str ''a'' @ [nl, nl, nl] @ str ''1'' @ [bsl] @ str ''. x''"
  by (simp add: escape_def eval_defs pat_defs cong: bind_weak_cong)

section \<open>Passes that do nothing\<close>

text \<open>
  The characters every match of a pattern has to read.  A text without one of them has no
  match, and the pass leaves it as it is.
\<close>

fun required :: "regex \<Rightarrow> uchar list" where
  "required (Sym cl) = (case cl of Lit c \<Rightarrow> [c] | _ \<Rightarrow> [])"
| "required (Seq r1 r2) = required r1 @ required r2"
| "required (Alt r1 r2) = filter (\<lambda>c. c \<in> set (required r2)) (required r1)"
| "required (Grp n r) = required r"
| "required (Look r) = required r"
| "required Eps = []"
| "required Bol = []"
| "required (Star gr r) = []"

lemma advanced_text:
  "advanced (p, b, cs, g) (p', b', cs', g') \<Longrightarrow> set cs' \<subseteq> set cs"
  by (auto simp: advanced_def dest: in_set_dropD)

lemma rmatch_required:
  "c \<in> set (required r) \<Longrightarrow> c \<notin> set cs \<Longrightarrow> rmatch r (p, b, cs, g) = []"
proof (induction r arbitrary: p b cs g)
  case (Sym cl)
  then show ?case by (cases cs; cases cl) auto
next
  case (Seq r1 r2)
  from Seq.prems(1) consider "c \<in> set (required r1)" | "c \<in> set (required r2)" by auto
  then show ?case
  proof cases
    case 1
    from Seq.IH(1) [OF 1 Seq.prems(2)] show ?thesis by simp
  next
    case 2
    have "rmatch r2 m = []" if m: "m \<in> set (rmatch r1 (p, b, cs, g))" for m
    proof -
      obtain p' b' cs' g' where m': "m = (p', b', cs', g')" by (cases m)
      from rmatch_advanced [OF m] have "set cs' \<subseteq> set cs"
        unfolding m' by (rule advanced_text)
      with Seq.prems(2) have "c \<notin> set cs'" by auto
      from Seq.IH(2) [OF 2 this] show ?thesis unfolding m' .
    qed
    then show ?thesis by simp
  qed
next
  case (Alt r1 r2)
  then show ?case by simp
next
  case (Grp n r)
  then show ?case by simp
next
  case (Look r)
  then show ?case by simp
qed simp_all

lemma search_dead:
  "c \<in> set (required r) \<Longrightarrow> c \<notin> set cs \<Longrightarrow> search r must p b cs = None"
proof (induction cs arbitrary: must p b)
  case Nil
  then show ?case by (simp add: attempt_def rmatch_required)
next
  case (Cons x xs)
  have "rmatch r (p, b, x # xs, []) = []"
    using Cons.prems by (intro rmatch_required)
  then show ?case using Cons by (simp add: attempt_def)
qed

lemma finditer_dead:
  "c \<in> set (required r) \<Longrightarrow> c \<notin> set cs \<Longrightarrow> finditer r must p b cs = []"
  by (simp add: finditer.simps [of r must p b cs] search_dead)




lemma replace_all_dead:
  "c \<in> set (required r) \<Longrightarrow> c \<notin> set t \<Longrightarrow> 1 \<le> ngroups r \<Longrightarrow>
   replace_all t r f = Some t"
  by (simp add: replace_all_regions finditer_dead slice_def)


















section \<open>Texts without the characters of the sentinels\<close>



















section \<open>Zero-leak\<close>












end
